theory Spec2Isabelle
  imports Main "HOL-Library.Mapping" "HOL-Library.Sublist"
begin

section \<open>contextify: flattening a directory tree into one annotated text file\<close>

text \<open>
  A shallow embedding of \<^verbatim>\<open>main.go\<close>.  Go strings are byte sequences and are modelled as
  \<^typ>\<open>string\<close> (a list of 8-bit characters).  A Go \<^verbatim>\<open>map[string]bool\<close> is a
  \<^typ>\<open>(string, bool) mapping\<close>; indexing a missing key yields \<^verbatim>\<open>false\<close>.
\<close>

subsection \<open>Go standard library: strings and path/filepath\<close>

text \<open>The two target families of the Makefile (darwin, windows) differ in their path separator.\<close>

datatype goos = Unix | Windows

definition slash :: char where
  "slash = CHR 0x2F"

definition backslash :: char where
  "backslash = CHR 0x5C"

definition dot :: char where
  "dot = CHR 0x2E"

definition comma :: char where
  "comma = CHR 0x2C"

text \<open>\<^verbatim>\<open>filepath.Separator\<close> and \<^verbatim>\<open>os.IsPathSeparator\<close>.\<close>

fun Separator :: "goos \<Rightarrow> char" where
  "Separator Unix = slash"
| "Separator Windows = backslash"

fun IsPathSeparator :: "goos \<Rightarrow> char \<Rightarrow> bool" where
  "IsPathSeparator Unix c = (c = slash)"
| "IsPathSeparator Windows c = (c = backslash \<or> c = slash)"

text \<open>
  \<^verbatim>\<open>strings.Split(s, sep)\<close> for a one-byte separator: the substrings between the separators,
  in order; a string without separator is returned whole, the empty string gives one empty
  substring.
\<close>

fun Split :: "string \<Rightarrow> char \<Rightarrow> string list" where
  "Split [] sep = [[]]"
| "Split (c # cs) sep =
     (if c = sep then [] # Split cs sep
      else (case Split cs sep of
              [] \<Rightarrow> [[c]]
            | part # parts \<Rightarrow> (c # part) # parts))"

text \<open>\<^verbatim>\<open>strings.Join(elems, sep)\<close>.\<close>

fun Join :: "string list \<Rightarrow> string \<Rightarrow> string" where
  "Join [] sep = []"
| "Join [e] sep = e"
| "Join (e # es) sep = e @ sep @ Join es sep"

text \<open>
  \<^verbatim>\<open>filepath.Ext(path)\<close>: scan from the last byte towards the first, stop at a path
  separator, return the suffix that starts at the first dot met.  \<open>ext_scan\<close> is the loop, run
  on the reversed path, with the bytes already passed in \<open>seen\<close>.
\<close>

fun ext_scan :: "goos \<Rightarrow> string \<Rightarrow> string \<Rightarrow> string" where
  "ext_scan os [] seen = []"
| "ext_scan os (c # front) seen =
     (if IsPathSeparator os c then []
      else if c = dot then c # seen
      else ext_scan os front (c # seen))"

definition Ext :: "goos \<Rightarrow> string \<Rightarrow> string" where
  "Ext os path = ext_scan os (rev path) []"

subsection \<open>Lookup maps\<close>

type_synonym lookup = "(string, bool) mapping"

text \<open>\<^verbatim>\<open>m[key]\<close> on a \<^verbatim>\<open>map[string]bool\<close>: the zero value \<^verbatim>\<open>false\<close> for a missing key.\<close>

definition index :: "lookup \<Rightarrow> string \<Rightarrow> bool" where
  "index m key = (case Mapping.lookup m key of None \<Rightarrow> False | Some b \<Rightarrow> b)"

text \<open>\<^verbatim>\<open>createLookupMap\<close>: every item is stored with the value \<^verbatim>\<open>true\<close>.\<close>

fun insert_items :: "string list \<Rightarrow> lookup \<Rightarrow> lookup" where
  "insert_items [] lookup = lookup"
| "insert_items (item # items) lookup = insert_items items (Mapping.update item True lookup)"

definition createLookupMap :: "string list \<Rightarrow> lookup" where
  "createLookupMap items = insert_items items Mapping.empty"

subsection \<open>Flag parsing\<close>

text \<open>
  \<^verbatim>\<open>parseCommaSeparated\<close>.  \<^verbatim>\<open>strings.TrimSpace\<close> is a parameter (\<open>trim\<close>): nothing below
  depends on which bytes it removes.  Go's \<^verbatim>\<open>nil\<close> slice and the empty slice are both \<open>[]\<close>.
\<close>

fun keep_trimmed :: "(string \<Rightarrow> string) \<Rightarrow> string list \<Rightarrow> string list" where
  "keep_trimmed trim [] = []"
| "keep_trimmed trim (part # parts) =
     (let trimmed = trim part
      in if trimmed \<noteq> [] then trimmed # keep_trimmed trim parts
         else keep_trimmed trim parts)"

definition parseCommaSeparated :: "(string \<Rightarrow> string) \<Rightarrow> string \<Rightarrow> string list" where
  "parseCommaSeparated trim input =
     (if input = [] then [] else keep_trimmed trim (Split input comma))"

text \<open>\<^verbatim>\<open>ensureGitExcluded\<close>: the list itself when it holds \<^verbatim>\<open>.git\<close>, else \<^verbatim>\<open>.git\<close> appended.\<close>

fun has_git :: "string list \<Rightarrow> bool" where
  "has_git [] = False"
| "has_git (dir # dirs) = (if dir = ''.git'' then True else has_git dirs)"

definition ensureGitExcluded :: "string list \<Rightarrow> string list" where
  "ensureGitExcluded excludeDirs =
     (if has_git excludeDirs then excludeDirs else excludeDirs @ [''.git''])"

subsection \<open>PathMatcher\<close>

text \<open>The \<^verbatim>\<open>for _, part := range parts\<close> loop of \<^verbatim>\<open>shouldExcludeDir\<close>.\<close>

fun any_part_excluded :: "lookup \<Rightarrow> string list \<Rightarrow> bool" where
  "any_part_excluded excludeMap [] = False"
| "any_part_excluded excludeMap (part # parts) =
     (if index excludeMap part then True else any_part_excluded excludeMap parts)"

definition shouldExcludeDir :: "goos \<Rightarrow> string \<Rightarrow> lookup \<Rightarrow> bool" where
  "shouldExcludeDir os relPath excludeMap =
     (if Mapping.is_empty excludeMap then False
      else if any_part_excluded excludeMap (Split relPath (Separator os)) then True
      else index excludeMap relPath)"

definition shouldIncludeFile :: "goos \<Rightarrow> string \<Rightarrow> lookup \<Rightarrow> bool" where
  "shouldIncludeFile os filePath includeMap =
     (if Mapping.is_empty includeMap then True
      else index includeMap (Ext os filePath))"

subsection \<open>Errors and log records\<close>

text \<open>
  Go \<^verbatim>\<open>error\<close> values.  \<open>PathError\<close> is an error of the operating system (with its
  message), \<open>Wrapped\<close> is \<^verbatim>\<open>fmt.Errorf("<prefix>: %w", err)\<close>, \<open>SkipDir\<close> is the sentinel
  \<^verbatim>\<open>filepath.SkipDir\<close>, \<open>ErrTooLong\<close> is \<^verbatim>\<open>bufio.ErrTooLong\<close>, and \<open>Panic\<close> is a
  run-time panic.  A function returning \<^verbatim>\<open>error\<close> returns an \<open>error option\<close>, \<open>None\<close> for
  \<^verbatim>\<open>nil\<close>.
\<close>

datatype error =
    SkipDir
  | ErrTooLong
  | PathError string
  | Wrapped string error
  | Panic string

text \<open>The calls made to the \<^verbatim>\<open>slog\<close> logger: level, message and attributes.\<close>

datatype level = LevelDebug | LevelInfo | LevelWarn | LevelError

datatype attr = AString string | AStrings "string list" | AInt nat | AError error

type_synonym entry = "level \<times> string \<times> (string \<times> attr) list"

subsection \<open>Go standard library: the buffered writer over the output file\<close>

text \<open>
  \<^verbatim>\<open>bufio.Writer\<close> over an \<^verbatim>\<open>os.File\<close>.  \<open>flushed\<close> holds the bytes that reached the file,
  \<open>buf\<close> the bytes still buffered, \<open>werr\<close> the writer's sticky error.  The one thing the
  environment decides is how many bytes the file accepts before a write to it fails
  (\<open>room\<close>; \<open>None\<close>: it never fails).
\<close>

record writer =
  flushed :: string
  buf :: string
  werr :: "string option"
  room :: "nat option"

definition defaultBufSize :: nat where
  "defaultBufSize = 4096"

definition NewWriter :: "nat option \<Rightarrow> writer" where
  "NewWriter limit = \<lparr>flushed = [], buf = [], werr = None, room = limit\<rparr>"

definition Available :: "writer \<Rightarrow> nat" where
  "Available b = defaultBufSize - length (buf b)"

text \<open>\<^verbatim>\<open>(*os.File).Write\<close>: the bytes that fit are written; an error when not all did.\<close>

definition file_Write :: "writer \<Rightarrow> string \<Rightarrow> writer \<times> nat \<times> string option" where
  "file_Write b p =
     (let n = (case room b of
                 None \<Rightarrow> length p
               | Some limit \<Rightarrow> min (length p) (limit - length (flushed b)))
      in (b\<lparr>flushed := flushed b @ take n p\<rparr>, n,
          if n < length p then Some ''no space left on device'' else None))"

definition Flush :: "writer \<Rightarrow> writer \<times> string option" where
  "Flush b =
     (case werr b of
        Some e \<Rightarrow> (b, Some e)
      | None \<Rightarrow>
          if buf b = [] then (b, None)
          else (case file_Write b (buf b) of
                  (b1, n, Some e) \<Rightarrow> (b1\<lparr>buf := drop n (buf b), werr := Some e\<rparr>, Some e)
                | (b1, n, None) \<Rightarrow> (b1\<lparr>buf := []\<rparr>, None)))"

text \<open>
  The loop of \<^verbatim>\<open>(*bufio.Writer).Write\<close>, run while the bytes do not fit the buffer and no
  error is pending: an empty buffer is bypassed, otherwise the buffer is filled and flushed.
  The result is the writer and the bytes not yet taken.
\<close>

function write_loop :: "writer \<Rightarrow> string \<Rightarrow> writer \<times> string" where
  "write_loop b p =
     (if length p > Available b \<and> werr b = None then
        (if buf b = [] then
           (case file_Write b p of
              (b1, n, err) \<Rightarrow> write_loop (b1\<lparr>werr := err\<rparr>) (drop n p))
         else
           (let n = Available b;
                b1 = b\<lparr>buf := buf b @ take n p\<rparr>
            in write_loop (fst (Flush b1)) (drop n p)))
      else (b, p))"
  by pat_completeness auto
termination
proof (relation "measure (\<lambda>(b, p).
    if werr b \<noteq> None \<or> length p \<le> Available b then 0 else if buf b = [] then 1 else (2::nat))")
  show "wf (measure (\<lambda>(b, p).
    if werr b \<noteq> None \<or> length p \<le> Available b then 0 else if buf b = [] then 1 else (2::nat)))"
    by simp
next
  fix b :: writer and p :: string and x y xa ya
  assume "Available b < length p \<and> werr b = None" "buf b = []"
    "(x, y) = file_Write b p" "(xa, ya) = y"
  then show "((x\<lparr>werr := ya\<rparr>, drop xa p), b, p) \<in> measure (\<lambda>(b, p).
    if werr b \<noteq> None \<or> length p \<le> Available b then 0 else if buf b = [] then 1 else (2::nat))"
    by (auto simp: file_Write_def Let_def split: option.splits if_splits)
next
  fix b :: writer and p :: string and x xa
  assume "Available b < length p \<and> werr b = None" "buf b \<noteq> []"
    "x = Available b" "xa = b\<lparr>buf := buf b @ take x p\<rparr>"
  then show "((fst (Flush xa), drop x p), b, p) \<in> measure (\<lambda>(b, p).
    if werr b \<noteq> None \<or> length p \<le> Available b then 0 else if buf b = [] then 1 else (2::nat))"
    by (auto simp: Flush_def file_Write_def Let_def split: option.splits if_splits)
qed

definition Write :: "writer \<Rightarrow> string \<Rightarrow> writer \<times> error option" where
  "Write b p =
     (case write_loop b p of
        (b1, p1) \<Rightarrow>
          (case werr b1 of
             Some e \<Rightarrow> (b1, Some (PathError e))
           | None \<Rightarrow> (b1\<lparr>buf := buf b1 @ p1\<rparr>, None)))"

subsection \<open>The file system the tool reads\<close>

text \<open>
  What the operating system answers when the tool reads one file: whether \<^verbatim>\<open>os.Open\<close>,
  \<^verbatim>\<open>Stat\<close> and \<^verbatim>\<open>Close\<close> fail, the bytes that \<^verbatim>\<open>Read\<close> delivers, and the error that ends
  them (\<open>None\<close>: \<^verbatim>\<open>io.EOF\<close>).
\<close>

record fileobj =
  open_err :: "string option"
  stat_err :: "string option"
  bytes :: string
  read_err :: "string option"
  close_err :: "string option"

text \<open>
  A node of the tree: a file, a directory with its entries in the order of \<^verbatim>\<open>os.ReadDir\<close>
  (sorted by name), or a directory that \<^verbatim>\<open>os.ReadDir\<close> fails to list.  The bytes of a
  file are those which the walk reads; for the output file itself, where it is one of the
  files of the tree, they are what the writer has flushed by then, which is the subject of
  the part on the output file among the files of the tree.
\<close>

datatype node =
    File fileobj
  | Dir "(string \<times> node) list"
  | Unlistable string

fun IsDir :: "node \<Rightarrow> bool" where
  "IsDir (File f) = False"
| "IsDir (Dir entries) = True"
| "IsDir (Unlistable e) = True"

text \<open>
  \<^verbatim>\<open>filepath.Join(dir, name)\<close> for a clean \<open>dir\<close> and a plain entry name, and
  \<^verbatim>\<open>filepath.Rel(base, target)\<close> for a target that is \<open>base\<close> or was joined below it, which
  is all that \<^verbatim>\<open>filepath.WalkDir\<close> passes on; for any other target the model gives an error.
\<close>

definition with_separator :: "goos \<Rightarrow> string \<Rightarrow> string" where
  "with_separator os dir =
     (if dir \<noteq> [] \<and> IsPathSeparator os (last dir) then dir else dir @ [Separator os])"

definition JoinPath :: "goos \<Rightarrow> string \<Rightarrow> string \<Rightarrow> string" where
  "JoinPath os dir name = with_separator os dir @ name"

definition Rel :: "goos \<Rightarrow> string \<Rightarrow> string \<Rightarrow> string + string" where
  "Rel os base target =
     (if target = base then Inr ''.''
      else if prefix (with_separator os base) target
      then Inr (drop (length (with_separator os base)) target)
      else Inl ''Rel: cannot make target relative to base'')"

subsection \<open>Go standard library: bufio.Scanner with the default line splitter\<close>

definition newline :: char where
  "newline = CHR 0x0A"

definition carriage_return :: char where
  "carriage_return = CHR 0x0D"

definition MaxScanTokenSize :: nat where
  "MaxScanTokenSize = 64 * 1024"

text \<open>\<open>dropCR\<close> drops one terminal carriage return.\<close>

definition dropCR :: "string \<Rightarrow> string" where
  "dropCR line = (if line \<noteq> [] \<and> last line = carriage_return then butlast line else line)"

text \<open>
  The scanner: the bytes not yet consumed, the error that follows them in the file, and the
  error the scanner stopped with.  \<open>Scan\<close> returns the next line, without its terminator, or
  \<open>None\<close> when it stops: at the end of the bytes (then with the read error, if there is one),
  or when 64 KiB of buffer hold no complete line (\<open>ErrTooLong\<close>).  A last line without newline
  is a line; a line loses one terminal carriage return.
\<close>

record scanner =
  unread :: string
  pending :: "string option"
  stopped :: "error option"

definition NewScanner :: "fileobj \<Rightarrow> scanner" where
  "NewScanner f = \<lparr>unread = bytes f, pending = read_err f, stopped = None\<rparr>"

definition Scan :: "scanner \<Rightarrow> string option \<times> scanner" where
  "Scan sc =
     (if unread sc = [] then (None, sc\<lparr>stopped := map_option PathError (pending sc)\<rparr>)
      else
        (let raw = takeWhile (\<lambda>c. c \<noteq> newline) (unread sc)
         in if MaxScanTokenSize \<le> length raw
            then (None, sc\<lparr>unread := [], stopped := Some ErrTooLong\<rparr>)
            else (Some (dropCR raw), sc\<lparr>unread := drop (Suc (length raw)) (unread sc)\<rparr>)))"

subsection \<open>Run configuration and run state\<close>

record Config =
  inputPath :: string
  outputPath :: string
  excludeDirs :: "string list"
  includeExts :: "string list"
  excludeMap :: lookup
  includeMap :: lookup

text \<open>
  What the walk changes: the buffered writer, the local \<^verbatim>\<open>fileCount\<close> of
  \<^verbatim>\<open>processDirectory\<close>, and the records handed to the logger.
\<close>

record run =
  out :: writer
  fileCount :: nat
  logged :: "entry list"

definition logger :: "level \<Rightarrow> string \<Rightarrow> (string \<times> attr) list \<Rightarrow> run \<Rightarrow> run" where
  "logger lvl msg attrs s = s\<lparr>logged := logged s @ [(lvl, msg, attrs)]\<rparr>"

text \<open>
  \<^verbatim>\<open>fmt.Fprint\<close> and \<^verbatim>\<open>fmt.Fprintf\<close> build the whole text and hand it to the writer in one
  \<^verbatim>\<open>Write\<close>; the text is built by the caller.
\<close>

definition Fprint :: "string \<Rightarrow> run \<Rightarrow> error option \<times> run" where
  "Fprint text s = (case Write (out s) text of (b, err) \<Rightarrow> (err, s\<lparr>out := b\<rparr>))"

definition Fprintf :: "string \<Rightarrow> run \<Rightarrow> error option \<times> run" where
  "Fprintf text s = (case Write (out s) text of (b, err) \<Rightarrow> (err, s\<lparr>out := b\<rparr>))"

subsection \<open>FileTranscriber\<close>

text \<open>
  The loop \<^verbatim>\<open>for scanner.Scan() { Fprintf(writer, "%s\n", scanner.Text()); lineCount++ }\<close>;
  a failed write leaves the function at once.
\<close>

function copy_lines :: "scanner \<Rightarrow> nat \<Rightarrow> run \<Rightarrow> error option \<times> scanner \<times> nat \<times> run" where
  "copy_lines sc lineCount s =
     (case Scan sc of
        (None, sc1) \<Rightarrow> (None, sc1, lineCount, s)
      | (Some line, sc1) \<Rightarrow>
          (case Fprintf (line @ [newline]) s of
             (Some err, s1) \<Rightarrow> (Some (Wrapped ''failed to write file content'' err), sc1, lineCount, s1)
           | (None, s1) \<Rightarrow> copy_lines sc1 (Suc lineCount) s1))"
  by pat_completeness auto
termination
  by (relation "measure (\<lambda>(sc, lineCount, s). length (unread sc))")
     (auto simp: Scan_def Let_def split: if_splits)

text \<open>
  \<^verbatim>\<open>processFile\<close> after the file is open, and \<^verbatim>\<open>processFile\<close> itself with the deferred
  \<^verbatim>\<open>file.Close()\<close>.  The file at \<open>fullPath\<close> is \<open>f\<close>.
\<close>

definition fence :: string where
  "fence = ''```''"

definition transcribe :: "fileobj \<Rightarrow> string \<Rightarrow> string \<Rightarrow> run \<Rightarrow> error option \<times> run" where
  "transcribe f fullPath relPath s0 =
     (let s1 = (case stat_err f of
                  Some e \<Rightarrow> logger LevelWarn ''Could not get file stats''
                              [(''path'', AString relPath), (''error'', AError (PathError e))] s0
                | None \<Rightarrow> logger LevelDebug ''File info''
                              [(''path'', AString relPath), (''size'', AInt (length (bytes f)))] s0)
      in case Fprintf (''## File: '' @ relPath @ [newline]) s1 of
           (Some err, s2) \<Rightarrow> (Some (Wrapped ''failed to write file header'' err), s2)
         | (None, s2) \<Rightarrow>
      (case Fprintf (fence @ [newline]) s2 of
           (Some err, s3) \<Rightarrow> (Some (Wrapped ''failed to write code block start'' err), s3)
         | (None, s3) \<Rightarrow>
      (case copy_lines (NewScanner f) 0 s3 of
           (Some err, sc, lineCount, s4) \<Rightarrow> (Some err, s4)
         | (None, sc, lineCount, s4) \<Rightarrow>
      (case stopped sc of
           Some err \<Rightarrow> (Some (Wrapped (''error reading file '' @ fullPath) err), s4)
         | None \<Rightarrow>
      (let s5 = logger LevelDebug ''File processed''
                  [(''path'', AString relPath), (''lines'', AInt lineCount)] s4
       in case Fprintf (fence @ [newline, newline]) s5 of
            (Some err, s6) \<Rightarrow> (Some (Wrapped ''failed to write code block end'' err), s6)
          | (None, s6) \<Rightarrow> (None, s6))))))"

definition processFile :: "fileobj \<Rightarrow> string \<Rightarrow> string \<Rightarrow> run \<Rightarrow> error option \<times> run" where
  "processFile f fullPath relPath s =
     (case open_err f of
        Some e \<Rightarrow> (Some (Wrapped (''failed to open file '' @ fullPath) (PathError e)), s)
      | None \<Rightarrow>
          (case transcribe f fullPath relPath s of
             (result, s1) \<Rightarrow>
               (result,
                case close_err f of
                  Some e \<Rightarrow> logger LevelWarn ''Failed to close input file''
                              [(''path'', AString relPath), (''error'', AError (PathError e))] s1
                | None \<Rightarrow> s1)))"

subsection \<open>OutputAssembler: the run header\<close>

fun write_headers :: "string list \<Rightarrow> run \<Rightarrow> error option \<times> run" where
  "write_headers [] s = (None, s)"
| "write_headers (header # headers) s =
     (case Fprint header s of
        (Some err, s1) \<Rightarrow> (Some err, s1)
      | (None, s1) \<Rightarrow> write_headers headers s1)"

definition header_lines :: "string \<Rightarrow> Config \<Rightarrow> string list" where
  "header_lines absPath config =
     (let headers = [''# Contextify Output'' @ [newline],
                     ''# Generated from: '' @ absPath @ [newline],
                     ''# Excluded directories: '' @ Join (excludeDirs config) '', '' @ [newline]];
          headers = (if 0 < length (includeExts config)
                     then headers @ [''# Included extensions: '' @ Join (includeExts config) '', ''
                                       @ [newline]]
                     else headers)
      in headers @ [[newline]])"

definition writeHeader :: "string \<Rightarrow> Config \<Rightarrow> run \<Rightarrow> error option \<times> run" where
  "writeHeader absPath config s = write_headers (header_lines absPath config) s"

subsection \<open>TreeWalker\<close>

text \<open>
  The function literal that \<^verbatim>\<open>processDirectory\<close> passes to \<^verbatim>\<open>filepath.WalkDir\<close>.  The
  \<^verbatim>\<open>fs.DirEntry\<close> is the node at \<open>path\<close> (\<open>None\<close> for \<^verbatim>\<open>nil\<close>), and opening \<open>path\<close> opens
  that node.
\<close>

definition walkFn ::
  "goos \<Rightarrow> Config \<Rightarrow> string \<Rightarrow> string \<Rightarrow> node option \<Rightarrow> error option \<Rightarrow> run \<Rightarrow> error option \<times> run"
where
  "walkFn os config absPath path d err s =
     (case err of
        Some e \<Rightarrow>
          (Some e, logger LevelWarn ''Error accessing path''
                     [(''path'', AString path), (''error'', AError e)] s)
      | None \<Rightarrow>
     (case Rel os absPath path of
        Inl e \<Rightarrow> (Some (PathError e), s)
      | Inr relPath \<Rightarrow>
     (case d of
        None \<Rightarrow> (Some (Panic ''nil pointer dereference''), s)
      | Some (File f) \<Rightarrow>
          if \<not> shouldIncludeFile os path (includeMap config)
          then (None, logger LevelDebug ''Skipping file (extension not included)''
                        [(''path'', AString relPath)] s)
          else
            (case processFile f path relPath
                    (logger LevelDebug ''Processing file'' [(''path'', AString relPath)] s) of
               (Some e, s1) \<Rightarrow>
                 (Some e, logger LevelError ''Failed to process file''
                            [(''path'', AString relPath), (''error'', AError e)] s1)
             | (None, s1) \<Rightarrow> (None, s1\<lparr>fileCount := Suc (fileCount s1)\<rparr>))
      | Some directory \<Rightarrow>
          if shouldExcludeDir os relPath (excludeMap config)
          then (Some SkipDir, logger LevelDebug ''Excluding directory''
                                [(''path'', AString relPath)] s)
          else (None, s))))"

text \<open>
  \<^verbatim>\<open>filepath.WalkDir\<close> and its recursive \<^verbatim>\<open>walkDir\<close>, for any callback \<open>fn\<close> on any state:
  the callback is called on a node before its entries; \<open>SkipDir\<close> from a directory skips
  its entries, \<open>SkipDir\<close> from a file skips the rest of its directory, any other error ends
  the walk; a directory that cannot be listed is reported to the callback a second time,
  with the error.
\<close>

type_synonym 's WalkDirFunc = "string \<Rightarrow> node option \<Rightarrow> error option \<Rightarrow> 's \<Rightarrow> error option \<times> 's"

definition skipped :: "error option \<times> 's \<Rightarrow> error option \<times> 's" where
  "skipped r = (case r of (err, s) \<Rightarrow> (if err = Some SkipDir then None else err, s))"

fun walkDir :: "goos \<Rightarrow> 's WalkDirFunc \<Rightarrow> string \<Rightarrow> node \<Rightarrow> 's \<Rightarrow> error option \<times> 's"
  and walkEntries ::
    "goos \<Rightarrow> 's WalkDirFunc \<Rightarrow> string \<Rightarrow> (string \<times> node) list \<Rightarrow> 's \<Rightarrow> error option \<times> 's"
where
  "walkDir os fn path (File f) s = fn path (Some (File f)) None s"
| "walkDir os fn path (Dir entries) s =
     (case fn path (Some (Dir entries)) None s of
        (Some err, s1) \<Rightarrow> skipped (Some err, s1)
      | (None, s1) \<Rightarrow> walkEntries os fn path entries s1)"
| "walkDir os fn path (Unlistable e) s =
     (case fn path (Some (Unlistable e)) None s of
        (Some err, s1) \<Rightarrow> skipped (Some err, s1)
      | (None, s1) \<Rightarrow>
          (case fn path (Some (Unlistable e)) (Some (PathError e)) s1 of
             (Some err, s2) \<Rightarrow> skipped (Some err, s2)
           | (None, s2) \<Rightarrow> (None, s2)))"
| "walkEntries os fn path [] s = (None, s)"
| "walkEntries os fn path ((name, d1) # dirs) s =
     (case walkDir os fn (JoinPath os path name) d1 s of
        (Some err, s1) \<Rightarrow> if err = SkipDir then (None, s1) else (Some err, s1)
      | (None, s1) \<Rightarrow> walkEntries os fn path dirs s1)"

definition WalkDir ::
  "goos \<Rightarrow> 's WalkDirFunc \<Rightarrow> string \<Rightarrow> string + node \<Rightarrow> 's \<Rightarrow> error option \<times> 's"
where
  "WalkDir os fn root lstat s =
     skipped (case lstat of
                Inl e \<Rightarrow> fn root None (Some (PathError e)) s
              | Inr d \<Rightarrow> walkDir os fn root d s)"

subsection \<open>processDirectory and main\<close>

text \<open>
  What the environment answers to one run: \<^verbatim>\<open>filepath.Abs\<close> of the input path,
  \<^verbatim>\<open>os.Create\<close> of the output path, the bytes the output file accepts, \<^verbatim>\<open>Close\<close> of the
  output file, and \<^verbatim>\<open>os.Lstat\<close> of the root with the tree below it.
\<close>

record world =
  abs_path :: "string + string"
  create_err :: "string option"
  out_room :: "nat option"
  out_close_err :: "string option"
  root :: "string + node"

text \<open>
  What a run leaves behind: the content of the output file (\<open>None\<close> when it was not
  created) and the records handed to the logger.
\<close>

record outcome =
  written :: "string option"
  records :: "entry list"

text \<open>\<^verbatim>\<open>processDirectory\<close> from the header to the last \<^verbatim>\<open>return\<close>, without the deferred calls.\<close>

definition walk_all :: "goos \<Rightarrow> Config \<Rightarrow> string \<Rightarrow> string + node \<Rightarrow> run \<Rightarrow> error option \<times> run" where
  "walk_all os config absPath lstat s0 =
     (case writeHeader absPath config s0 of
        (Some err, s1) \<Rightarrow> (Some (Wrapped ''failed to write header'' err), s1)
      | (None, s1) \<Rightarrow>
          (case WalkDir os (walkFn os config absPath) absPath lstat s1 of
             (Some err, s2) \<Rightarrow> (Some err, s2)
           | (None, s2) \<Rightarrow>
               (None, logger LevelInfo ''Processing completed''
                        [(''filesProcessed'', AInt (fileCount s2))] s2)))"

text \<open>The deferred calls run last in, first out: \<^verbatim>\<open>writer.Flush()\<close>, then \<^verbatim>\<open>outputFile.Close()\<close>.\<close>

definition deferred :: "world \<Rightarrow> run \<Rightarrow> outcome" where
  "deferred w s =
     (case Flush (out s) of
        (b, flushErr) \<Rightarrow>
          (let s1 = (case flushErr of
                       Some e \<Rightarrow> logger LevelError ''Failed to flush writer''
                                   [(''error'', AError (PathError e))] s
                     | None \<Rightarrow> s);
               s2 = (case out_close_err w of
                       Some e \<Rightarrow> logger LevelError ''Failed to close output file''
                                   [(''error'', AError (PathError e))] s1
                     | None \<Rightarrow> s1)
           in \<lparr>written = Some (flushed b), records = logged s2\<rparr>))"

definition processDirectory :: "goos \<Rightarrow> Config \<Rightarrow> world \<Rightarrow> error option \<times> outcome" where
  "processDirectory os config w =
     (case abs_path w of
        Inl e \<Rightarrow>
          (Some (Wrapped ''failed to get absolute path'' (PathError e)),
           \<lparr>written = None, records = []\<rparr>)
      | Inr absPath \<Rightarrow>
          (let started = [(LevelDebug, ''Processing directory'', [(''absolutePath'', AString absPath)])]
           in case create_err w of
                Some e \<Rightarrow>
                  (Some (Wrapped ''failed to create output file'' (PathError e)),
                   \<lparr>written = None, records = started\<rparr>)
              | None \<Rightarrow>
                  (case walk_all os config absPath (root w)
                          \<lparr>out = NewWriter (out_room w), fileCount = 0, logged = started\<rparr> of
                     (result, s) \<Rightarrow> (result, deferred w s))))"

text \<open>
  \<^verbatim>\<open>main\<close>: the flags, the configuration built from them, the run, and the exit code.  The
  log handler shows debug records only with \<^verbatim>\<open>-verbose\<close>.
\<close>

record flags =
  input_flag :: string
  output_flag :: string
  exclude_flag :: string
  extensions_flag :: string
  verbose_flag :: bool

definition newConfig :: "(string \<Rightarrow> string) \<Rightarrow> flags \<Rightarrow> Config" where
  "newConfig trim fl =
     (let excludeList = ensureGitExcluded (parseCommaSeparated trim (exclude_flag fl));
          includeList = parseCommaSeparated trim (extensions_flag fl)
      in \<lparr>inputPath = input_flag fl, outputPath = output_flag fl,
          excludeDirs = excludeList, includeExts = includeList,
          excludeMap = createLookupMap excludeList,
          includeMap = createLookupMap includeList\<rparr>)"

definition handled :: "bool \<Rightarrow> entry list \<Rightarrow> entry list" where
  "handled verbose rs = filter (\<lambda>r. verbose \<or> fst r \<noteq> LevelDebug) rs"

definition main :: "goos \<Rightarrow> (string \<Rightarrow> string) \<Rightarrow> flags \<Rightarrow> world \<Rightarrow> nat \<times> outcome" where
  "main os trim fl w =
     (let config = newConfig trim fl;
          starting = (LevelInfo, ''Starting contextify'',
                      [(''input'', AString (inputPath config)),
                       (''output'', AString (outputPath config)),
                       (''excludeDirs'', AStrings (excludeDirs config)),
                       (''includeExts'', AStrings (includeExts config))])
      in case processDirectory os config w of
           (Some err, res) \<Rightarrow>
             (1, res\<lparr>records := handled (verbose_flag fl)
                       (starting # records res
                        @ [(LevelError, ''Failed to process directory'', [(''error'', AError err)])])\<rparr>)
         | (None, res) \<Rightarrow>
             (0, res\<lparr>records := handled (verbose_flag fl)
                       (starting # records res
                        @ [(LevelInfo, ''Successfully created context file'',
                            [(''output'', AString (outputPath config))])])\<rparr>))"

subsection \<open>The output file among the files of the tree\<close>

text \<open>
  The output path may lead into the tree that is walked: with the default flags the tool
  writes \<^verbatim>\<open>context.txt\<close> into the directory it reads.  Then \<^verbatim>\<open>os.Create\<close> changes the
  tree before the walk starts, and the walk reads the output file while the writer fills it.
  In this part the \<open>root\<close> of a world is the tree as it is before the run, \<open>place\<close> says where
  the output path leads (the names of the entries from the root down to the file; \<open>None\<close>
  when it leads out of the tree), and a run returns the world that it leaves.
\<close>

text \<open>Go compares strings byte by byte; \<^verbatim>\<open>os.ReadDir\<close> sorts the entries by name.\<close>

fun name_less :: "string \<Rightarrow> string \<Rightarrow> bool" where
  "name_less [] [] = False"
| "name_less [] (d # ds) = True"
| "name_less (c # cs) [] = False"
| "name_less (c # cs) (d # ds) = ((of_char c :: nat) < of_char d \<or> c = d \<and> name_less cs ds)"

text \<open>
  \<^verbatim>\<open>os.Create\<close> in a tree: a file that exists is truncated, a file that is missing is
  created in its place among the sorted entries of its directory, a directory is not
  replaced, and a missing directory is not made.  The entries of a directory that cannot be
  listed are not part of the tree, nor is a file created there.
\<close>

definition new_file :: fileobj where
  "new_file = \<lparr>open_err = None, stat_err = None, bytes = [], read_err = None, close_err = None\<rparr>"

fun create_in :: "string list \<Rightarrow> node \<Rightarrow> string + node"
  and create_entry :: "string \<Rightarrow> string list \<Rightarrow> (string \<times> node) list \<Rightarrow> string + (string \<times> node) list"
where
  "create_in [] (File f) = Inr (File (f\<lparr>bytes := []\<rparr>))"
| "create_in [] (Dir entries) = Inl ''is a directory''"
| "create_in [] (Unlistable e) = Inl ''is a directory''"
| "create_in (name # names) (File f) = Inl ''not a directory''"
| "create_in (name # names) (Dir entries) =
     (case create_entry name names entries of
        Inl e \<Rightarrow> Inl e
      | Inr entries1 \<Rightarrow> Inr (Dir entries1))"
| "create_in (name # names) (Unlistable e) = Inr (Unlistable e)"
| "create_entry name names [] =
     (if names = [] then Inr [(name, File new_file)] else Inl ''no such file or directory'')"
| "create_entry name names ((n, d) # rest) =
     (if n = name then
        (case create_in names d of
           Inl e \<Rightarrow> Inl e
         | Inr d1 \<Rightarrow> Inr ((n, d1) # rest))
      else if name_less name n then
        (if names = [] then Inr ((name, File new_file) # (n, d) # rest)
         else Inl ''no such file or directory'')
      else
        (case create_entry name names rest of
           Inl e \<Rightarrow> Inl e
         | Inr rest1 \<Rightarrow> Inr ((n, d) # rest1)))"

text \<open>The tree with \<open>content\<close> as the bytes of the file at a place.\<close>

fun store_in :: "string list \<Rightarrow> string \<Rightarrow> node \<Rightarrow> node"
  and store_entry :: "string \<Rightarrow> string list \<Rightarrow> string \<Rightarrow> (string \<times> node) list \<Rightarrow> (string \<times> node) list"
where
  "store_in [] content (File f) = File (f\<lparr>bytes := content\<rparr>)"
| "store_in [] content (Dir entries) = Dir entries"
| "store_in [] content (Unlistable e) = Unlistable e"
| "store_in (name # names) content (File f) = File f"
| "store_in (name # names) content (Dir entries) = Dir (store_entry name names content entries)"
| "store_in (name # names) content (Unlistable e) = Unlistable e"
| "store_entry name names content [] = []"
| "store_entry name names content ((n, d) # rest) =
     (if n = name then (n, store_in names content d) # rest
      else (n, d) # store_entry name names content rest)"

text \<open>
  \<^verbatim>\<open>os.Create(config.outputPath)\<close> in a world, and the world with the bytes that a run has
  left in its output file.
\<close>

definition Create :: "world \<Rightarrow> string list option \<Rightarrow> string + world" where
  "Create w place =
     (case create_err w of
        Some e \<Rightarrow> Inl e
      | None \<Rightarrow>
          (case place of
             None \<Rightarrow> Inr w
           | Some names \<Rightarrow>
               (case root w of
                  Inl e \<Rightarrow> Inl e
                | Inr tree \<Rightarrow>
                    (case create_in names tree of
                       Inl e \<Rightarrow> Inl e
                     | Inr tree1 \<Rightarrow> Inr (w\<lparr>root := Inr tree1\<rparr>)))))"

definition stored :: "string list option \<Rightarrow> string option \<Rightarrow> world \<Rightarrow> world" where
  "stored place content w =
     (case (place, content, root w) of
        (Some names, Some text, Inr tree) \<Rightarrow> w\<lparr>root := Inr (store_in names text tree)\<rparr>
      | _ \<Rightarrow> w)"

text \<open>The path under which the walk meets the entry at a place.\<close>

definition path_of :: "goos \<Rightarrow> string \<Rightarrow> string list \<Rightarrow> string" where
  "path_of os absPath names = foldl (JoinPath os) absPath names"

text \<open>
  The scanner over the output file.  Between two calls of \<^verbatim>\<open>Scan\<close> the writer may have
  added bytes to the file, so every call gets the bytes that the file holds then, beyond those
  already consumed, and scans them as above.  A call that meets the end of the file ends the
  scanner: it yields the bytes left as a last line, if there are any, and no later call
  reads again.
\<close>

record live_scanner =
  consumed :: nat
  ended :: bool
  halted :: "error option"

definition NewScanner_live :: live_scanner where
  "NewScanner_live = \<lparr>consumed = 0, ended = False, halted = None\<rparr>"

definition Scan_live :: "fileobj \<Rightarrow> string \<Rightarrow> live_scanner \<Rightarrow> string option \<times> live_scanner" where
  "Scan_live f content t =
     (if ended t then (None, t)
      else
        (let data = drop (consumed t) content
         in case Scan \<lparr>unread = data, pending = read_err f, stopped = None\<rparr> of
              (None, sc) \<Rightarrow> (None, t\<lparr>ended := True, halted := stopped sc\<rparr>)
            | (Some line, sc) \<Rightarrow>
                (Some line,
                 if newline \<in> set data
                 then t\<lparr>consumed := length content - length (unread sc)\<rparr>
                 else t\<lparr>consumed := length content, ended := True,
                        halted := map_option PathError (read_err f)\<rparr>)))"

text \<open>
  The loop of \<^verbatim>\<open>processFile\<close> on the output file: the bytes of the file are those that
  the writer has flushed.  The loop need not end; \<open>None\<close> is a loop that does not.
\<close>

partial_function (option) copy_lines_live ::
  "fileobj \<Rightarrow> live_scanner \<Rightarrow> nat \<Rightarrow> run \<Rightarrow> (error option \<times> live_scanner \<times> nat \<times> run) option"
where
  "copy_lines_live f t lineCount s =
     (case Scan_live f (flushed (out s)) t of
        (None, t1) \<Rightarrow> Some (None, t1, lineCount, s)
      | (Some line, t1) \<Rightarrow>
          (case Fprintf (line @ [newline]) s of
             (Some err, s1) \<Rightarrow>
               Some (Some (Wrapped ''failed to write file content'' err), t1, lineCount, s1)
           | (None, s1) \<Rightarrow> copy_lines_live f t1 (Suc lineCount) s1))"

definition transcribe_live ::
  "fileobj \<Rightarrow> string \<Rightarrow> string \<Rightarrow> run \<Rightarrow> (error option \<times> run) option"
where
  "transcribe_live f fullPath relPath s0 =
     (let s1 = (case stat_err f of
                  Some e \<Rightarrow> logger LevelWarn ''Could not get file stats''
                              [(''path'', AString relPath), (''error'', AError (PathError e))] s0
                | None \<Rightarrow> logger LevelDebug ''File info''
                              [(''path'', AString relPath),
                               (''size'', AInt (length (flushed (out s0))))] s0)
      in case Fprintf (''## File: '' @ relPath @ [newline]) s1 of
           (Some err, s2) \<Rightarrow> Some (Some (Wrapped ''failed to write file header'' err), s2)
         | (None, s2) \<Rightarrow>
      (case Fprintf (fence @ [newline]) s2 of
           (Some err, s3) \<Rightarrow> Some (Some (Wrapped ''failed to write code block start'' err), s3)
         | (None, s3) \<Rightarrow>
      (case copy_lines_live f NewScanner_live 0 s3 of
           None \<Rightarrow> None
         | Some (Some err, t, lineCount, s4) \<Rightarrow> Some (Some err, s4)
         | Some (None, t, lineCount, s4) \<Rightarrow>
      (case halted t of
           Some err \<Rightarrow> Some (Some (Wrapped (''error reading file '' @ fullPath) err), s4)
         | None \<Rightarrow>
      (let s5 = logger LevelDebug ''File processed''
                  [(''path'', AString relPath), (''lines'', AInt lineCount)] s4
       in case Fprintf (fence @ [newline, newline]) s5 of
            (Some err, s6) \<Rightarrow> Some (Some (Wrapped ''failed to write code block end'' err), s6)
          | (None, s6) \<Rightarrow> Some (None, s6))))))"

definition processFile_live ::
  "fileobj \<Rightarrow> string \<Rightarrow> string \<Rightarrow> run \<Rightarrow> (error option \<times> run) option"
where
  "processFile_live f fullPath relPath s =
     (case open_err f of
        Some e \<Rightarrow> Some (Some (Wrapped (''failed to open file '' @ fullPath) (PathError e)), s)
      | None \<Rightarrow>
          (case transcribe_live f fullPath relPath s of
             None \<Rightarrow> None
           | Some (result, s1) \<Rightarrow>
               Some (result,
                     case close_err f of
                       Some e \<Rightarrow> logger LevelWarn ''Failed to close input file''
                                   [(''path'', AString relPath), (''error'', AError (PathError e))] s1
                     | None \<Rightarrow> s1)))"

text \<open>
  \<^verbatim>\<open>processFile\<close> in a tree that holds the output file at the path \<open>self\<close>: that file is
  read as the writer fills it, every other file as the operating system answers.
\<close>

definition processFile_at ::
  "string option \<Rightarrow> fileobj \<Rightarrow> string \<Rightarrow> string \<Rightarrow> run \<Rightarrow> (error option \<times> run) option"
where
  "processFile_at self f fullPath relPath s =
     (if self = Some fullPath then processFile_live f fullPath relPath s
      else Some (processFile f fullPath relPath s))"

text \<open>
  The callback of the walk, on the state of a run that may not return: a state \<open>None\<close> is
  that of a run which is still in a call of \<^verbatim>\<open>processFile\<close>, and nothing happens to it.
\<close>

definition walkFn_live ::
  "goos \<Rightarrow> Config \<Rightarrow> string \<Rightarrow> string option \<Rightarrow> string \<Rightarrow> node option \<Rightarrow> error option \<Rightarrow>
   run option \<Rightarrow> error option \<times> run option"
where
  "walkFn_live os config absPath self path d err state =
     (case state of
        None \<Rightarrow> (None, None)
      | Some s \<Rightarrow>
     (case err of
        Some e \<Rightarrow>
          (Some e, Some (logger LevelWarn ''Error accessing path''
                           [(''path'', AString path), (''error'', AError e)] s))
      | None \<Rightarrow>
     (case Rel os absPath path of
        Inl e \<Rightarrow> (Some (PathError e), Some s)
      | Inr relPath \<Rightarrow>
     (case d of
        None \<Rightarrow> (Some (Panic ''nil pointer dereference''), Some s)
      | Some (File f) \<Rightarrow>
          if \<not> shouldIncludeFile os path (includeMap config)
          then (None, Some (logger LevelDebug ''Skipping file (extension not included)''
                              [(''path'', AString relPath)] s))
          else
            (case processFile_at self f path relPath
                    (logger LevelDebug ''Processing file'' [(''path'', AString relPath)] s) of
               None \<Rightarrow> (None, None)
             | Some (Some e, s1) \<Rightarrow>
                 (Some e, Some (logger LevelError ''Failed to process file''
                                  [(''path'', AString relPath), (''error'', AError e)] s1))
             | Some (None, s1) \<Rightarrow> (None, Some (s1\<lparr>fileCount := Suc (fileCount s1)\<rparr>)))
      | Some directory \<Rightarrow>
          if shouldExcludeDir os relPath (excludeMap config)
          then (Some SkipDir, Some (logger LevelDebug ''Excluding directory''
                                      [(''path'', AString relPath)] s))
          else (None, Some s)))))"

definition walk_all_live ::
  "goos \<Rightarrow> Config \<Rightarrow> string \<Rightarrow> string option \<Rightarrow> string + node \<Rightarrow> run \<Rightarrow> (error option \<times> run) option"
where
  "walk_all_live os config absPath self lstat s0 =
     (case writeHeader absPath config s0 of
        (Some err, s1) \<Rightarrow> Some (Some (Wrapped ''failed to write header'' err), s1)
      | (None, s1) \<Rightarrow>
          (case WalkDir os (walkFn_live os config absPath self) absPath lstat (Some s1) of
             (result, None) \<Rightarrow> None
           | (Some err, Some s2) \<Rightarrow> Some (Some err, s2)
           | (None, Some s2) \<Rightarrow>
               Some (None, logger LevelInfo ''Processing completed''
                             [(''filesProcessed'', AInt (fileCount s2))] s2)))"

text \<open>
  \<^verbatim>\<open>processDirectory\<close> on the tree as it is, with what it returns, what it leaves in the
  output file and the log, and the world after it; \<open>None\<close> when it does not return.
\<close>

definition processDirectory_live ::
  "goos \<Rightarrow> Config \<Rightarrow> world \<Rightarrow> string list option \<Rightarrow> (error option \<times> outcome \<times> world) option"
where
  "processDirectory_live os config w place =
     (case abs_path w of
        Inl e \<Rightarrow>
          Some (Some (Wrapped ''failed to get absolute path'' (PathError e)),
                \<lparr>written = None, records = []\<rparr>, w)
      | Inr absPath \<Rightarrow>
          (let started = [(LevelDebug, ''Processing directory'', [(''absolutePath'', AString absPath)])]
           in case Create w place of
                Inl e \<Rightarrow>
                  Some (Some (Wrapped ''failed to create output file'' (PathError e)),
                        \<lparr>written = None, records = started\<rparr>, w)
              | Inr w1 \<Rightarrow>
                  (case walk_all_live os config absPath (map_option (path_of os absPath) place)
                          (root w1) \<lparr>out = NewWriter (out_room w1), fileCount = 0, logged = started\<rparr> of
                     None \<Rightarrow> None
                   | Some (result, s) \<Rightarrow>
                       (let res = deferred w1 s
                        in Some (result, res, stored place (written res) w1)))))"

subsection \<open>Specification functions\<close>

text \<open>The bytes a writer has accepted, in order: those in the file, then those buffered.\<close>

definition stream :: "writer \<Rightarrow> string" where
  "stream b = flushed b @ buf b"

text \<open>All the lines a scanner yields until it stops, and the scanner as it stops.\<close>

function scan_all :: "scanner \<Rightarrow> string list \<times> scanner" where
  "scan_all sc =
     (case Scan sc of
        (None, sc1) \<Rightarrow> ([], sc1)
      | (Some line, sc1) \<Rightarrow> (case scan_all sc1 of (lines, sc2) \<Rightarrow> (line # lines, sc2)))"
  by pat_completeness auto
termination
  by (relation "measure (\<lambda>sc. length (unread sc))")
     (auto simp: Scan_def Let_def split: if_splits)

text \<open>
  The lines of a file as the scanner yields them, and the text of the section that a
  complete transcription of the file adds to the output.
\<close>

definition file_lines :: "fileobj \<Rightarrow> string list" where
  "file_lines f = fst (scan_all (NewScanner f))"

definition section_of :: "string \<Rightarrow> fileobj \<Rightarrow> string" where
  "section_of relPath f =
     ''## File: '' @ relPath @ [newline] @ fence @ [newline]
     @ concat (map (\<lambda>line. line @ [newline]) (file_lines f))
     @ fence @ [newline, newline]"

text \<open>A line of input with its terminator: carriage return and newline, or newline alone.\<close>

fun terminated :: "string \<times> bool \<Rightarrow> string" where
  "terminated (line, crlf) = line @ (if crlf then [carriage_return, newline] else [newline])"

text \<open>
  The path of a node relative to the root of the walk, and whether the walk excludes the
  directory at a path.
\<close>

definition relative :: "goos \<Rightarrow> string \<Rightarrow> string \<Rightarrow> string" where
  "relative os absPath path = (case Rel os absPath path of Inl e \<Rightarrow> [] | Inr relPath \<Rightarrow> relPath)"

definition excluded :: "goos \<Rightarrow> Config \<Rightarrow> string \<Rightarrow> string \<Rightarrow> bool" where
  "excluded os config absPath dir =
     shouldExcludeDir os (relative os absPath dir) (excludeMap config)"

text \<open>
  All the files of a tree in pre-order: a directory before its entries, the entries in
  their order.  Each file comes with its path and with the paths of the directories it
  lies in, from the node where the enumeration starts on (\<open>outer\<close> holds those further up).
\<close>

fun all_files :: "goos \<Rightarrow> string \<Rightarrow> string list \<Rightarrow> node \<Rightarrow> (string \<times> string list \<times> fileobj) list"
  and all_entries ::
    "goos \<Rightarrow> string \<Rightarrow> string list \<Rightarrow> (string \<times> node) list \<Rightarrow> (string \<times> string list \<times> fileobj) list"
where
  "all_files os path outer (File f) = [(path, outer, f)]"
| "all_files os path outer (Dir entries) = all_entries os path (outer @ [path]) entries"
| "all_files os path outer (Unlistable e) = []"
| "all_entries os path outer [] = []"
| "all_entries os path outer ((name, d) # dirs) =
     all_files os (JoinPath os path name) outer d @ all_entries os path outer dirs"

text \<open>
  The files the tool is to transcribe: no directory they lie in is excluded, and their
  extension is included.
\<close>

definition chosen :: "goos \<Rightarrow> Config \<Rightarrow> string \<Rightarrow> string \<times> string list \<times> fileobj \<Rightarrow> bool" where
  "chosen os config absPath entry =
     (case entry of
        (path, outer, f) \<Rightarrow>
          list_all (\<lambda>dir. \<not> excluded os config absPath dir) outer \<and>
          shouldIncludeFile os path (includeMap config))"

definition sections :: "goos \<Rightarrow> string \<Rightarrow> (string \<times> string list \<times> fileobj) list \<Rightarrow> string" where
  "sections os absPath files =
     concat (map (\<lambda>(path, outer, f). section_of (relative os absPath path) f) files)"

text \<open>The state \<open>s1\<close> is the state \<open>s\<close> after these files were transcribed, and counted.\<close>

definition transcribed ::
  "goos \<Rightarrow> string \<Rightarrow> (string \<times> string list \<times> fileobj) list \<Rightarrow> run \<Rightarrow> run \<Rightarrow> bool"
where
  "transcribed os absPath files s s1 =
     (stream (out s1) = stream (out s) @ sections os absPath files \<and>
      fileCount s1 = fileCount s + length files \<and>
      room (out s1) = room (out s) \<and>
      (werr (out s) = None \<longrightarrow> werr (out s1) = None))"

text \<open>A path that the walk from \<open>absPath\<close> can reach: the root itself, or a path below it.\<close>

definition within_root :: "goos \<Rightarrow> string \<Rightarrow> string \<Rightarrow> bool" where
  "within_root os absPath path = (path = absPath \<or> prefix (with_separator os absPath) path)"

text \<open>
  A tree that the walk reads without error: every file it is to transcribe opens and is
  scanned to its end without error, and every directory it does not exclude can be listed.
\<close>

fun readable :: "goos \<Rightarrow> Config \<Rightarrow> string \<Rightarrow> string \<Rightarrow> node \<Rightarrow> bool"
  and readable_entries :: "goos \<Rightarrow> Config \<Rightarrow> string \<Rightarrow> string \<Rightarrow> (string \<times> node) list \<Rightarrow> bool"
where
  "readable os config absPath path (File f) =
     (\<not> shouldIncludeFile os path (includeMap config) \<or>
      open_err f = None \<and> stopped (snd (scan_all (NewScanner f))) = None)"
| "readable os config absPath path (Dir entries) =
     (excluded os config absPath path \<or> readable_entries os config absPath path entries)"
| "readable os config absPath path (Unlistable e) = excluded os config absPath path"
| "readable_entries os config absPath path [] = True"
| "readable_entries os config absPath path ((name, d) # dirs) =
     (readable os config absPath (JoinPath os path name) d \<and>
      readable_entries os config absPath path dirs)"

text \<open>The files of a run that are to be transcribed, and the text of a complete output.\<close>

definition selected :: "goos \<Rightarrow> Config \<Rightarrow> string \<Rightarrow> node \<Rightarrow> (string \<times> string list \<times> fileobj) list" where
  "selected os config absPath tree =
     filter (chosen os config absPath) (all_files os absPath [] tree)"

definition complete_output :: "goos \<Rightarrow> Config \<Rightarrow> string \<Rightarrow> node \<Rightarrow> string" where
  "complete_output os config absPath tree =
     concat (header_lines absPath config)
     @ sections os absPath (selected os config absPath tree)"

text \<open>The record that reports the number of files processed.\<close>

definition completed :: "nat \<Rightarrow> entry" where
  "completed n = (LevelInfo, ''Processing completed'', [(''filesProcessed'', AInt n)])"

text \<open>The state \<open>s1\<close> is the state \<open>s\<close> after a part of this text, from its start, was written.\<close>

definition partly_written :: "string \<Rightarrow> run \<Rightarrow> run \<Rightarrow> bool" where
  "partly_written str s s1 = (\<exists>part. prefix part str \<and> stream (out s1) = stream (out s) @ part)"

text \<open>
  A writer that has not failed and has taken no more bytes than its buffer holds has
  flushed none of them.
\<close>

definition buffered :: "writer \<Rightarrow> bool" where
  "buffered b = (werr b = None \<and> length (stream b) \<le> defaultBufSize \<longrightarrow> flushed b = [])"

text \<open>The files of a tree that the walk meets under the path \<open>self\<close> hold no bytes.\<close>

fun blank_at :: "goos \<Rightarrow> string option \<Rightarrow> string \<Rightarrow> node \<Rightarrow> bool"
  and blank_entries :: "goos \<Rightarrow> string option \<Rightarrow> string \<Rightarrow> (string \<times> node) list \<Rightarrow> bool"
where
  "blank_at os self path (File f) = (self = Some path \<longrightarrow> bytes f = [])"
| "blank_at os self path (Dir entries) = blank_entries os self path entries"
| "blank_at os self path (Unlistable e) = True"
| "blank_entries os self path [] = True"
| "blank_entries os self path ((name, d) # dirs) =
     (blank_at os self (JoinPath os path name) d \<and> blank_entries os self path dirs)"

subsection \<open>Examples\<close>

text \<open>A file that opens, reads and closes without error, and the run state at the start.\<close>

definition plain_file :: "string \<Rightarrow> fileobj" where
  "plain_file content =
     \<lparr>open_err = None, stat_err = None, bytes = content, read_err = None, close_err = None\<rparr>"

definition fresh_run :: "nat option \<Rightarrow> run" where
  "fresh_run limit = \<lparr>out = NewWriter limit, fileCount = 0, logged = []\<rparr>"

text \<open>Two lines: the first ended by carriage return and newline, the second not ended.\<close>

definition two_lines :: string where
  "two_lines = ''a'' @ [carriage_return, newline] @ ''b''"

text \<open>The flags \<^verbatim>\<open>-exclude node_modules -extensions .go\<close>, and a trimming that removes nothing.\<close>

definition example_flags :: flags where
  "example_flags =
     \<lparr>input_flag = ''.'', output_flag = ''context.txt'', exclude_flag = ''node_modules'',
      extensions_flag = ''.go'', verbose_flag = False\<rparr>"

definition no_trim :: "string \<Rightarrow> string" where
  "no_trim part = part"

text \<open>
  A world whose root directory cannot be listed, whose output file accepts no byte and
  fails to close.
\<close>

definition failing_world :: world where
  "failing_world =
     \<lparr>abs_path = Inr ''/r'', create_err = None, out_room = Some 0,
      out_close_err = Some ''input/output error'',
      root = Inr (Unlistable ''permission denied'')\<rparr>"

text \<open>The same output file, and an empty root directory.\<close>

definition full_disk_world :: world where
  "full_disk_world = failing_world\<lparr>root := Inr (Dir [])\<rparr>"

text \<open>
  The tree \<^verbatim>\<open>{a.go, b.txt, node_modules/ignored.go, sub/c.go}\<close> at \<^verbatim>\<open>/r\<close>, every file with
  the two lines above, and an output file that accepts every byte.
\<close>

definition example_tree :: node where
  "example_tree =
     Dir [(''a.go'', File (plain_file two_lines)),
          (''b.txt'', File (plain_file two_lines)),
          (''node_modules'', Dir [(''ignored.go'', File (plain_file two_lines))]),
          (''sub'', Dir [(''c.go'', File (plain_file two_lines))])]"

definition example_world :: world where
  "example_world =
     \<lparr>abs_path = Inr ''/r'', create_err = None, out_room = None, out_close_err = None,
      root = Inr example_tree\<rparr>"

text \<open>An empty root directory, and an output file that accepts every byte.\<close>

definition empty_world :: world where
  "empty_world = example_world\<lparr>root := Inr (Dir [])\<rparr>"

text \<open>
  A file that cannot be opened, a file that fails to read after its bytes, a root directory
  that holds the first before a plain file, and the state of that run after the header.
\<close>

definition locked_file :: fileobj where
  "locked_file = (plain_file two_lines)\<lparr>open_err := Some ''permission denied''\<rparr>"

definition broken_file :: fileobj where
  "broken_file = (plain_file two_lines)\<lparr>read_err := Some ''input/output error''\<rparr>"

definition locked_entries :: "(string \<times> node) list" where
  "locked_entries = [(''a.go'', File locked_file), (''b.go'', File (plain_file two_lines))]"

definition locked_world :: world where
  "locked_world = example_world\<lparr>root := Inr (Dir locked_entries)\<rparr>"

definition started :: run where
  "started =
     \<lparr>out = NewWriter None, fileCount = 0,
      logged = [(LevelDebug, ''Processing directory'', [(''absolutePath'', AString ''/r'')])]\<rparr>"

definition header_written :: run where
  "header_written = snd (writeHeader ''/r'' (newConfig no_trim example_flags) started)"

text \<open>
  The default flags, and the example tree once more, in a world whose output path
  \<^verbatim>\<open>context.txt\<close> leads into the root directory, before and after the file is created.
\<close>

definition default_flags :: flags where
  "default_flags =
     \<lparr>input_flag = ''.'', output_flag = ''context.txt'', exclude_flag = [],
      extensions_flag = [], verbose_flag = False\<rparr>"

definition context_place :: "string list option" where
  "context_place = Some [''context.txt'']"

definition created_tree :: node where
  "created_tree =
     Dir [(''a.go'', File (plain_file two_lines)),
          (''b.txt'', File (plain_file two_lines)),
          (''context.txt'', File new_file),
          (''node_modules'', Dir [(''ignored.go'', File (plain_file two_lines))]),
          (''sub'', Dir [(''c.go'', File (plain_file two_lines))])]"

definition created_world :: world where
  "created_world = example_world\<lparr>root := Inr created_tree\<rparr>"

text \<open>
  A root directory that holds one file, before and after \<^verbatim>\<open>context.txt\<close> is created in
  it, and the text of the output for it under the default flags.
\<close>

definition single_world :: world where
  "single_world = example_world\<lparr>root := Inr (Dir [(''a.go'', File (plain_file two_lines))])\<rparr>"

definition listed_tree :: node where
  "listed_tree =
     Dir [(''a.go'', File (plain_file two_lines)),
          (''context.txt'', File new_file)]"

definition listed_world :: world where
  "listed_world = example_world\<lparr>root := Inr listed_tree\<rparr>"

definition listed_text :: string where
  "listed_text =
     concat (header_lines ''/r'' (newConfig no_trim default_flags))
     @ section_of ''a.go'' (plain_file two_lines)
     @ section_of ''context.txt'' new_file"

text \<open>The example tree on a volume that holds a million bytes.\<close>

definition small_world :: world where
  "small_world = example_world\<lparr>out_room := Some 1000000\<rparr>"

section \<open>Properties\<close>

subsection \<open>Library facts\<close>

lemma Split_not_Nil: "Split s sep \<noteq> []"
  by (induction s) (auto split: list.splits)

lemma index_empty: "index Mapping.empty key = False"
  by (simp add: index_def)

lemma index_update: "index (Mapping.update k v m) key = (if k = key then v else index m key)"
  by (simp add: index_def Mapping.lookup_update')

lemma is_empty_index: "Mapping.is_empty m \<Longrightarrow> index m key = False"
  by (simp add: index_def Mapping.is_empty_def keys_dom_lookup domIff split: option.splits)

lemma index_insert_items:
  "index (insert_items items m) key = (key \<in> set items \<or> index m key)"
  by (induction items arbitrary: m) (auto simp: index_update)

lemma index_createLookupMap: "index (createLookupMap items) key = (key \<in> set items)"
  by (simp add: createLookupMap_def index_insert_items index_empty)

lemma is_empty_insert_items:
  "Mapping.is_empty (insert_items items m) = (items = [] \<and> Mapping.is_empty m)"
  by (induction items arbitrary: m) auto

lemma is_empty_createLookupMap: "Mapping.is_empty (createLookupMap items) = (items = [])"
  by (simp add: createLookupMap_def is_empty_insert_items)

lemma any_part_excluded_iff:
  "any_part_excluded m parts = (\<exists>part \<in> set parts. index m part)"
  by (induction parts) auto

lemma Split_no_sep: "sep \<notin> set s \<Longrightarrow> Split s sep = [s]"
  by (induction s) auto

lemma Split_append_sep: "sep \<notin> set e \<Longrightarrow> Split (e @ sep # rest) sep = e # Split rest sep"
  by (induction e) auto

lemma Split_Join:
  "segs \<noteq> [] \<Longrightarrow> \<forall>seg \<in> set segs. sep \<notin> set seg \<Longrightarrow> Split (Join segs [sep]) sep = segs"
proof (induction segs "[sep]" rule: Join.induct)
  case 1
  then show ?case by simp
next
  case (2 e)
  then show ?case by (simp add: Split_no_sep)
next
  case (3 e v va)
  then show ?case by (simp add: Split_append_sep)
qed

lemma dot_not_separator: "\<not> IsPathSeparator os dot"
  by (cases os) (simp_all add: dot_def slash_def backslash_def)

lemma ext_scan_skip:
  "\<forall>c \<in> set xs. \<not> IsPathSeparator os c \<and> c \<noteq> dot \<Longrightarrow>
   ext_scan os (xs @ r) seen = ext_scan os r (rev xs @ seen)"
  by (induction xs arbitrary: seen) auto

lemma Ext_suffix:
  assumes "\<forall>c \<in> set ext. \<not> IsPathSeparator os c \<and> c \<noteq> dot"
  shows "Ext os (pre @ dot # ext) = dot # ext"
  using assms by (simp add: Ext_def ext_scan_skip dot_not_separator)

lemma Ext_no_dot:
  assumes "\<forall>c \<in> set name. \<not> IsPathSeparator os c \<and> c \<noteq> dot"
    and "dir = [] \<or> IsPathSeparator os (last dir)"
  shows "Ext os (dir @ name) = []"
proof (cases dir rule: rev_cases)
  case Nil
  with assms(1) ext_scan_skip [of "rev name" os "[]" "[]"] show ?thesis
    by (simp add: Ext_def)
next
  case (snoc ys y)
  with assms ext_scan_skip [of "rev name" os "y # rev ys" "[]"] show ?thesis
    by (simp add: Ext_def)
qed

lemma keep_trimmed_nonempty: "[] \<notin> set (keep_trimmed trim parts)"
  by (induction parts) (auto simp: Let_def)

lemma parseCommaSeparated_nonempty: "[] \<notin> set (parseCommaSeparated trim input)"
  by (simp add: parseCommaSeparated_def keep_trimmed_nonempty)

subsection \<open>The buffered writer\<close>

lemma file_Write_facts:
  assumes "file_Write b p = (b1, n, e)"
  shows "flushed b1 = flushed b @ take n p" "buf b1 = buf b" "werr b1 = werr b"
    "room b1 = room b" "n \<le> length p" "e = None \<Longrightarrow> n = length p"
    "room b = None \<Longrightarrow> e = None"
  using assms by (auto simp: file_Write_def Let_def split: option.splits if_splits)

lemma Flush_stream: "Flush b = (b1, e) \<Longrightarrow> stream b1 = stream b \<and> room b1 = room b"
  by (auto simp: Flush_def stream_def file_Write_def Let_def
      split: option.splits if_splits prod.splits)

lemma Flush_unlimited:
  "room b = None \<Longrightarrow> werr b = None \<Longrightarrow> snd (Flush b) = None \<and> werr (fst (Flush b)) = None"
  by (auto simp: Flush_def file_Write_def Let_def split: option.splits if_splits prod.splits)

declare write_loop.simps [simp del]

lemma write_loop_done:
  "\<not> (length p > Available b \<and> werr b = None) \<Longrightarrow> write_loop b p = (b, p)"
  by (subst write_loop.simps) auto

lemma write_loop_direct:
  "length p > Available b \<and> werr b = None \<Longrightarrow> buf b = [] \<Longrightarrow> file_Write b p = (b2, n, e) \<Longrightarrow>
   write_loop b p = write_loop (b2\<lparr>werr := e\<rparr>) (drop n p)"
  by (subst write_loop.simps) simp

lemma write_loop_fill:
  "length p > Available b \<and> werr b = None \<Longrightarrow> buf b \<noteq> [] \<Longrightarrow>
   write_loop b p =
     write_loop (fst (Flush (b\<lparr>buf := buf b @ take (Available b) p\<rparr>))) (drop (Available b) p)"
  by (subst write_loop.simps) (simp add: Let_def)

lemma write_loop_stream:
  "write_loop b p = (b1, p1) \<Longrightarrow> stream b1 @ p1 = stream b @ p \<and> room b1 = room b"
proof (induction b p arbitrary: b1 p1 rule: write_loop.induct)
  case (1 b p)
  show ?case
  proof (cases "length p > Available b \<and> werr b = None")
    case False
    with "1.prems" show ?thesis by (simp add: write_loop_done)
  next
    case loop: True
    show ?thesis
    proof (cases "buf b = []")
      case True
      obtain b2 n e where fw: "file_Write b p = (b2, n, e)"
        by (cases "file_Write b p") auto
      with "1.prems" loop True have "write_loop (b2\<lparr>werr := e\<rparr>) (drop n p) = (b1, p1)"
        by (simp add: write_loop_direct)
      with "1.IH"(1) [OF loop True fw [symmetric] refl] 
      have "stream b1 @ p1 = stream (b2\<lparr>werr := e\<rparr>) @ drop n p \<and> room b1 = room (b2\<lparr>werr := e\<rparr>)"
        by simp
      moreover have "stream (b2\<lparr>werr := e\<rparr>) = stream b @ take n p" "room (b2\<lparr>werr := e\<rparr>) = room b"
        using file_Write_facts [OF fw] True by (simp_all add: stream_def)
      ultimately show ?thesis
        by simp
    next
      case False
      define b2 where "b2 = b\<lparr>buf := buf b @ take (Available b) p\<rparr>"
      from "1.prems" loop False have "write_loop (fst (Flush b2)) (drop (Available b) p) = (b1, p1)"
        by (simp add: b2_def write_loop_fill)
      with "1.IH"(2) [OF loop False refl b2_def]
      have "stream b1 @ p1 = stream (fst (Flush b2)) @ drop (Available b) p
            \<and> room b1 = room (fst (Flush b2))"
        by simp
      moreover have "stream (fst (Flush b2)) = stream b2 \<and> room (fst (Flush b2)) = room b2"
        using Flush_stream [of b2] by (cases "Flush b2") auto
      moreover have "stream b2 = stream b @ take (Available b) p" "room b2 = room b"
        by (simp_all add: stream_def b2_def)
      ultimately show ?thesis
        by simp
    qed
  qed
qed

lemma write_loop_unlimited:
  "room b = None \<Longrightarrow> werr b = None \<Longrightarrow> werr (fst (write_loop b p)) = None"
proof (induction b p rule: write_loop.induct)
  case (1 b p)
  show ?case
  proof (cases "length p > Available b \<and> werr b = None")
    case False
    with "1.prems" show ?thesis by (simp add: write_loop_done)
  next
    case loop: True
    show ?thesis
    proof (cases "buf b = []")
      case True
      obtain b2 n e where fw: "file_Write b p = (b2, n, e)"
        by (cases "file_Write b p") auto
      from file_Write_facts [OF fw] "1.prems"
      have "room (b2\<lparr>werr := e\<rparr>) = None" "werr (b2\<lparr>werr := e\<rparr>) = None"
        by simp_all
      with "1.IH"(1) [OF loop True fw [symmetric] refl] loop True fw show ?thesis
        by (simp add: write_loop_direct)
    next
      case False
      define b2 where "b2 = b\<lparr>buf := buf b @ take (Available b) p\<rparr>"
      have "room b2 = None" "werr b2 = None"
        using "1.prems" by (simp_all add: b2_def)
      then have "room (fst (Flush b2)) = None" "werr (fst (Flush b2)) = None"
        using Flush_stream [of b2] Flush_unlimited [of b2] by (cases "Flush b2"; simp)+
      with "1.IH"(2) [OF loop False refl b2_def] loop False show ?thesis
        by (simp add: b2_def write_loop_fill)
    qed
  qed
qed

lemma Write_ok:
  assumes "Write b p = (b1, None)"
  shows "stream b1 = stream b @ p" "werr b1 = None" "room b1 = room b"
proof -
  obtain b2 p2 where wl: "write_loop b p = (b2, p2)"
    by (cases "write_loop b p") auto
  with assms have w: "werr b2 = None" "b1 = b2\<lparr>buf := buf b2 @ p2\<rparr>"
    by (auto simp: Write_def split: option.splits)
  from write_loop_stream [OF wl] w show "stream b1 = stream b @ p" "werr b1 = None" "room b1 = room b"
    by (auto simp: stream_def)
qed

lemma Write_unlimited:
  assumes "room b = None" "werr b = None"
  shows "snd (Write b p) = None"
  using write_loop_unlimited [OF assms, of p]
  by (cases "write_loop b p") (auto simp: Write_def split: option.splits)

lemma Write_room: "room (fst (Write b p)) = room b"
  using write_loop_stream [of b p]
  by (cases "write_loop b p") (auto simp: Write_def split: option.splits)

subsection \<open>Writing through the run state\<close>

lemma Fprintf_ok:
  assumes "Fprintf str s = (None, s1)"
  shows "stream (out s1) = stream (out s) @ str" "fileCount s1 = fileCount s"
    "logged s1 = logged s" "werr (out s1) = None" "room (out s1) = room (out s)"
proof -
  obtain b e where w: "Write (out s) str = (b, e)"
    by (cases "Write (out s) str") auto
  with assms have "e = None" "s1 = s\<lparr>out := b\<rparr>"
    by (auto simp: Fprintf_def)
  with Write_ok [of "out s" str b] w
  show "stream (out s1) = stream (out s) @ str" "fileCount s1 = fileCount s"
    "logged s1 = logged s" "werr (out s1) = None" "room (out s1) = room (out s)"
    by simp_all
qed

lemma Fprintf_frame:
  assumes "Fprintf str s = (r, s1)"
  shows "fileCount s1 = fileCount s" "logged s1 = logged s" "room (out s1) = room (out s)"
  using assms Write_room [of "out s" str]
  by (auto simp: Fprintf_def split: prod.splits)

lemma Fprintf_unlimited:
  assumes "room (out s) = None" "werr (out s) = None"
  shows "fst (Fprintf str s) = None"
  using Write_unlimited [OF assms, of str]
  by (auto simp: Fprintf_def split: prod.splits)

lemma Fprint_Fprintf: "Fprint str s = Fprintf str s"
  by (simp add: Fprint_def Fprintf_def)

lemma logger_simps:
  "out (logger lvl msg attrs s) = out s"
  "fileCount (logger lvl msg attrs s) = fileCount s"
  "logged (logger lvl msg attrs s) = logged s @ [(lvl, msg, attrs)]"
  by (simp_all add: logger_def)

subsection \<open>The scanner and the copy loop\<close>

declare copy_lines.simps [simp del] scan_all.simps [simp del]

lemma copy_lines_ok:
  "copy_lines sc n s = (None, sc1, n1, s1) \<Longrightarrow>
   sc1 = snd (scan_all sc) \<and> n1 = n + length (fst (scan_all sc)) \<and>
   stream (out s1) =
     stream (out s) @ concat (map (\<lambda>line. line @ [newline]) (fst (scan_all sc))) \<and>
   fileCount s1 = fileCount s \<and> logged s1 = logged s \<and> room (out s1) = room (out s)"
proof (induction sc n s rule: copy_lines.induct)
  case (1 sc lineCount s)
  obtain tok sc2 where sc: "Scan sc = (tok, sc2)"
    by (cases "Scan sc") auto
  show ?case
  proof (cases tok)
    case None
    with sc "1.prems" show ?thesis
      by (simp add: copy_lines.simps [of sc] scan_all.simps [of sc])
  next
    case (Some line)
    obtain r s2 where fp: "Fprintf (line @ [newline]) s = (r, s2)"
      by (cases "Fprintf (line @ [newline]) s") auto
    with sc Some "1.prems" have r: "r = None" and rec: "copy_lines sc2 (Suc lineCount) s2 = (None, sc1, n1, s1)"
      by (auto simp: copy_lines.simps [of sc] split: option.splits)
    from sc Some have "(Some line, sc2) = Scan sc" by simp
    from "1.IH" [OF this refl _ refl, of s2] fp r rec
    have "sc1 = snd (scan_all sc2) \<and> n1 = Suc lineCount + length (fst (scan_all sc2)) \<and>
      stream (out s1) =
        stream (out s2) @ concat (map (\<lambda>line. line @ [newline]) (fst (scan_all sc2))) \<and>
      fileCount s1 = fileCount s2 \<and> logged s1 = logged s2 \<and> room (out s1) = room (out s2)"
      by simp
    with Fprintf_ok [of "line @ [newline]" s s2] fp r sc Some show ?thesis
      by (simp add: scan_all.simps [of sc] split: prod.splits)
  qed
qed

lemma copy_lines_frame:
  "copy_lines sc n s = (r, sc1, n1, s1) \<Longrightarrow>
   fileCount s1 = fileCount s \<and> logged s1 = logged s \<and> room (out s1) = room (out s)"
proof (induction sc n s rule: copy_lines.induct)
  case (1 sc lineCount s)
  obtain tok sc2 where sc: "Scan sc = (tok, sc2)"
    by (cases "Scan sc") auto
  show ?case
  proof (cases tok)
    case None
    with sc "1.prems" show ?thesis
      by (simp add: copy_lines.simps [of sc])
  next
    case (Some line)
    obtain e s2 where fp: "Fprintf (line @ [newline]) s = (e, s2)"
      by (cases "Fprintf (line @ [newline]) s") auto
    show ?thesis
    proof (cases e)
      case None
      from sc Some have "(Some line, sc2) = Scan sc" by simp
      from "1.IH" [OF this refl _ refl, of s2] fp None sc Some "1.prems"
      have "fileCount s1 = fileCount s2 \<and> logged s1 = logged s2 \<and> room (out s1) = room (out s2)"
        by (simp add: copy_lines.simps [of sc])
      with Fprintf_frame [OF fp] show ?thesis by simp
    next
      case (Some err)
      with sc \<open>tok = Some line\<close> fp "1.prems" Fprintf_frame [OF fp] show ?thesis
        by (auto simp: copy_lines.simps [of sc])
    qed
  qed
qed

subsection \<open>Lines\<close>

lemma takeWhile_line:
  "newline \<notin> set l \<Longrightarrow> takeWhile (\<lambda>c. c \<noteq> newline) (l @ newline # rest) = l"
  by (induction l) auto

lemma takeWhile_tail:
  "newline \<notin> set l \<Longrightarrow> takeWhile (\<lambda>c. c \<noteq> newline) l = l"
  by (induction l) auto

lemma carriage_return_not_newline: "carriage_return \<noteq> newline"
  by (simp add: carriage_return_def newline_def)

lemma scan_all_stopped:
  "Scan sc = (None, sc1) \<Longrightarrow> scan_all sc = ([], sc1)"
  by (subst scan_all.simps) simp

lemma scan_all_line:
  "Scan sc = (Some l, sc1) \<Longrightarrow>
   scan_all sc = (case scan_all sc1 of (lines, sc2) \<Rightarrow> (l # lines, sc2))"
  by (subst scan_all.simps) simp

lemma scan_all_tail:
  assumes "newline \<notin> set tail"
    and "stopped (snd (scan_all \<lparr>unread = tail, pending = pe, stopped = st\<rparr>)) = None"
  shows "fst (scan_all \<lparr>unread = tail, pending = pe, stopped = st\<rparr>) =
         (if tail = [] then [] else [dropCR tail])"
proof (cases "tail = []")
  case True
  have "Scan \<lparr>unread = [], pending = pe, stopped = st\<rparr> =
        (None, \<lparr>unread = [], pending = pe, stopped = map_option PathError pe\<rparr>)"
    by (simp add: Scan_def)
  from scan_all_stopped [OF this] True show ?thesis
    by simp
next
  case False
  let ?sc = "\<lparr>unread = tail, pending = pe, stopped = st\<rparr>"
  have tw: "takeWhile (\<lambda>c. c \<noteq> newline) tail = tail"
    using assms(1) by (rule takeWhile_tail)
  show ?thesis
  proof (cases "MaxScanTokenSize \<le> length tail")
    case True
    with False have "Scan ?sc = (None, ?sc\<lparr>unread := [], stopped := Some ErrTooLong\<rparr>)"
      by (simp add: Scan_def Let_def tw)
    from scan_all_stopped [OF this] assms(2) show ?thesis by simp
  next
    case short: False
    with False have "Scan ?sc = (Some (dropCR tail), ?sc\<lparr>unread := []\<rparr>)"
      by (simp add: Scan_def Let_def tw)
    moreover have "scan_all (?sc\<lparr>unread := []\<rparr>) = ([], ?sc\<lparr>unread := [], stopped := map_option PathError pe\<rparr>)"
      by (rule scan_all_stopped) (simp add: Scan_def)
    ultimately show ?thesis using False scan_all_line [of ?sc "dropCR tail" "?sc\<lparr>unread := []\<rparr>"]
      by simp
  qed
qed

lemma scan_all_lines:
  assumes "\<forall>(l, crlf) \<in> set ls. newline \<notin> set l \<and> (\<not> crlf \<longrightarrow> l = [] \<or> last l \<noteq> carriage_return)"
    and "newline \<notin> set tail"
    and "stopped (snd (scan_all \<lparr>unread = concat (map terminated ls) @ tail, pending = pe,
           stopped = st\<rparr>)) = None"
  shows "fst (scan_all \<lparr>unread = concat (map terminated ls) @ tail, pending = pe, stopped = st\<rparr>) =
         map fst ls @ (if tail = [] then [] else [dropCR tail])"
  using assms
proof (induction ls)
  case Nil
  then show ?case using scan_all_tail [of tail pe st] by simp
next
  case (Cons a ls)
  obtain l crlf where a: "a = (l, crlf)" by (cases a) auto
  let ?rest = "concat (map terminated ls) @ tail"
  let ?sc = "\<lparr>unread = concat (map terminated (a # ls)) @ tail, pending = pe, stopped = st\<rparr>"
  define raw where "raw = (if crlf then l @ [carriage_return] else l)"
  from Cons.prems(1) a have l: "newline \<notin> set l" "\<not> crlf \<Longrightarrow> l = [] \<or> last l \<noteq> carriage_return"
    by auto
  have unread: "unread ?sc = raw @ newline # ?rest"
    by (simp add: a raw_def)
  have rawnl: "newline \<notin> set raw"
    using l(1) carriage_return_not_newline by (auto simp: raw_def)
  have tw: "takeWhile (\<lambda>c. c \<noteq> newline) (raw @ newline # ?rest) = raw"
    using rawnl by (rule takeWhile_line)
  have dr: "dropCR raw = l"
    using l(2) by (auto simp: raw_def dropCR_def)
  show ?case
  proof (cases "MaxScanTokenSize \<le> length raw")
    case True
    with unread have "Scan ?sc = (None, ?sc\<lparr>unread := [], stopped := Some ErrTooLong\<rparr>)"
      by (simp add: Scan_def Let_def tw)
    from scan_all_stopped [OF this] Cons.prems(3) show ?thesis by simp
  next
    case False
    with unread dr have sc: "Scan ?sc = (Some l, \<lparr>unread = ?rest, pending = pe, stopped = st\<rparr>)"
      by (simp add: Scan_def Let_def tw)
    have sa: "scan_all ?sc =
      (case scan_all \<lparr>unread = ?rest, pending = pe, stopped = st\<rparr> of
         (lines, sc2) \<Rightarrow> (l # lines, sc2))"
      by (rule scan_all_line [OF sc])
    with Cons.prems(3)
    have "stopped (snd (scan_all \<lparr>unread = ?rest, pending = pe, stopped = st\<rparr>)) = None"
      by (simp split: prod.splits)
    with Cons.IH Cons.prems(1,2)
    have "fst (scan_all \<lparr>unread = ?rest, pending = pe, stopped = st\<rparr>) =
         map fst ls @ (if tail = [] then [] else [dropCR tail])"
      by simp
    then show ?thesis
      unfolding sa by (cases "scan_all \<lparr>unread = ?rest, pending = pe, stopped = st\<rparr>") (simp add: a)
  qed
qed

subsection \<open>FileTranscriber\<close>

lemma transcribe_frame:
  assumes "transcribe f fullPath relPath s = (r, s1)"
  shows "fileCount s1 = fileCount s \<and> room (out s1) = room (out s)"
proof -
  define t1 where "t1 = (case stat_err f of
                  Some e \<Rightarrow> logger LevelWarn ''Could not get file stats''
                              [(''path'', AString relPath), (''error'', AError (PathError e))] s
                | None \<Rightarrow> logger LevelDebug ''File info''
                              [(''path'', AString relPath), (''size'', AInt (length (bytes f)))] s)"
  have t1: "fileCount t1 = fileCount s" "room (out t1) = room (out s)"
    by (simp_all add: t1_def logger_simps split: option.splits)
  define hdr where "hdr = ''## File: '' @ relPath @ [newline]"
  obtain r2 t2 where p2: "Fprintf hdr t1 = (r2, t2)"
    by (cases "Fprintf hdr t1") auto
  obtain r3 t3 where p3: "Fprintf (fence @ [newline]) t2 = (r3, t3)"
    by (cases "Fprintf (fence @ [newline]) t2") auto
  obtain r4 sc n4 t4 where p4: "copy_lines (NewScanner f) 0 t3 = (r4, sc, n4, t4)"
    by (cases "copy_lines (NewScanner f) 0 t3") auto
  define t5 where "t5 = logger LevelDebug ''File processed''
                  [(''path'', AString relPath), (''lines'', AInt n4)] t4"
  obtain r6 t6 where p6: "Fprintf (fence @ [newline, newline]) t5 = (r6, t6)"
    by (cases "Fprintf (fence @ [newline, newline]) t5") auto
  have t5: "fileCount t5 = fileCount t4" "room (out t5) = room (out t4)"
    by (simp_all add: t5_def logger_simps)
  from assms have "s1 \<in> {t2, t3, t4, t6}"
    unfolding transcribe_def Let_def t1_def [symmetric] hdr_def [symmetric]
    by (simp add: p2 p3 p4 p6 t5_def [symmetric] split: option.splits)
  with t1 t5 Fprintf_frame [OF p2] Fprintf_frame [OF p3] copy_lines_frame [OF p4]
    Fprintf_frame [OF p6]
  show ?thesis by auto
qed

lemma transcribe_ok:
  assumes "transcribe f fullPath relPath s = (None, s1)"
  shows "stream (out s1) = stream (out s) @ section_of relPath f"
    and "stopped (snd (scan_all (NewScanner f))) = None"
    and "werr (out s1) = None"
proof -
  define t1 where "t1 = (case stat_err f of
                  Some e \<Rightarrow> logger LevelWarn ''Could not get file stats''
                              [(''path'', AString relPath), (''error'', AError (PathError e))] s
                | None \<Rightarrow> logger LevelDebug ''File info''
                              [(''path'', AString relPath), (''size'', AInt (length (bytes f)))] s)"
  have t1: "out t1 = out s"
    by (simp add: t1_def logger_simps split: option.splits)
  define hdr where "hdr = ''## File: '' @ relPath @ [newline]"
  obtain r2 t2 where p2: "Fprintf hdr t1 = (r2, t2)"
    by (cases "Fprintf hdr t1") auto
  obtain r3 t3 where p3: "Fprintf (fence @ [newline]) t2 = (r3, t3)"
    by (cases "Fprintf (fence @ [newline]) t2") auto
  obtain r4 sc n4 t4 where p4: "copy_lines (NewScanner f) 0 t3 = (r4, sc, n4, t4)"
    by (cases "copy_lines (NewScanner f) 0 t3") auto
  define t5 where "t5 = logger LevelDebug ''File processed''
                  [(''path'', AString relPath), (''lines'', AInt n4)] t4"
  obtain r6 t6 where p6: "Fprintf (fence @ [newline, newline]) t5 = (r6, t6)"
    by (cases "Fprintf (fence @ [newline, newline]) t5") auto
  have t5: "out t5 = out t4"
    by (simp add: t5_def logger_simps)
  from assms have ok: "r2 = None \<and> r3 = None \<and> r4 = None \<and> stopped sc = None \<and> r6 = None \<and> s1 = t6"
    unfolding transcribe_def Let_def t1_def [symmetric] hdr_def [symmetric]
    by (simp add: p2 p3 p4 p6 t5_def [symmetric] split: option.splits)
  from ok p2 have "stream (out t2) = stream (out t1) @ hdr"
    using Fprintf_ok(1) by blast
  then have a2: "stream (out t2) = stream (out t1) @ ''## File: '' @ relPath @ [newline]"
    by (simp add: hdr_def)
  from ok p3 have a3: "stream (out t3) = stream (out t2) @ fence @ [newline]"
    using Fprintf_ok(1) by blast
  from ok p4 copy_lines_ok [of "NewScanner f" 0 t3 sc n4 t4]
  have a4: "stream (out t4) = stream (out t3) @ concat (map (\<lambda>line. line @ [newline]) (file_lines f))"
    and sc: "sc = snd (scan_all (NewScanner f))"
    by (simp_all add: file_lines_def)
  from ok p6 have a6: "stream (out t6) = stream (out t5) @ fence @ [newline, newline]"
    using Fprintf_ok(1) by blast
  from a2 a3 a4 a6 t1 t5 ok show "stream (out s1) = stream (out s) @ section_of relPath f"
    by (simp add: section_of_def)
  from ok sc show "stopped (snd (scan_all (NewScanner f))) = None"
    by simp
  from ok p6 Fprintf_ok(4) [of "fence @ [newline, newline]" t5 t6] show "werr (out s1) = None"
    by simp
qed

lemma processFile_frame:
  assumes "processFile f fullPath relPath s = (r, s1)"
  shows "fileCount s1 = fileCount s \<and> room (out s1) = room (out s)"
proof (cases "open_err f")
  case None
  obtain r2 s2 where t: "transcribe f fullPath relPath s = (r2, s2)"
    by (cases "transcribe f fullPath relPath s") auto
  with assms None transcribe_frame [OF t] show ?thesis
    by (auto simp: processFile_def logger_simps split: option.splits)
next
  case (Some e)
  with assms show ?thesis by (simp add: processFile_def)
qed

lemma processFile_ok:
  assumes "processFile f fullPath relPath s = (None, s1)"
  shows "stream (out s1) = stream (out s) @ section_of relPath f"
    and "open_err f = None" and "stopped (snd (scan_all (NewScanner f))) = None"
    and "werr (out s1) = None"
proof -
  from assms show o: "open_err f = None"
    by (auto simp: processFile_def split: option.splits)
  obtain r2 s2 where t: "transcribe f fullPath relPath s = (r2, s2)"
    by (cases "transcribe f fullPath relPath s") auto
  with assms o have r2: "r2 = None" and "out s1 = out s2"
    by (auto simp: processFile_def logger_simps split: option.splits)
  with transcribe_ok [of f fullPath relPath s s2] t
  show "stream (out s1) = stream (out s) @ section_of relPath f"
    "stopped (snd (scan_all (NewScanner f))) = None" "werr (out s1) = None"
    by simp_all
qed

subsection \<open>A transcription that cannot fail\<close>

lemma copy_lines_unlimited:
  "room (out s) = None \<Longrightarrow> werr (out s) = None \<Longrightarrow> fst (copy_lines sc n s) = None"
proof (induction sc n s rule: copy_lines.induct)
  case (1 sc lineCount s)
  obtain tok sc2 where sc: "Scan sc = (tok, sc2)"
    by (cases "Scan sc") auto
  show ?case
  proof (cases tok)
    case None
    with sc show ?thesis
      by (simp add: copy_lines.simps [of sc])
  next
    case (Some line)
    obtain e s2 where fp: "Fprintf (line @ [newline]) s = (e, s2)"
      by (cases "Fprintf (line @ [newline]) s") auto
    with Fprintf_unlimited [OF "1.prems", of "line @ [newline]"] have e: "e = None"
      by simp
    from sc Some have "(Some line, sc2) = Scan sc" by simp
    from "1.IH" [OF this refl _ refl, of s2] fp e Fprintf_ok [of "line @ [newline]" s s2] "1.prems"
    have "fst (copy_lines sc2 (Suc lineCount) s2) = None"
      by simp
    with sc Some fp e show ?thesis
      by (simp add: copy_lines.simps [of sc])
  qed
qed

lemma copy_lines_werr:
  "copy_lines sc n s = (None, sc1, n1, s1) \<Longrightarrow> werr (out s) = None \<Longrightarrow> werr (out s1) = None"
proof (induction sc n s rule: copy_lines.induct)
  case (1 sc lineCount s)
  obtain tok sc2 where sc: "Scan sc = (tok, sc2)"
    by (cases "Scan sc") auto
  show ?case
  proof (cases tok)
    case None
    with sc "1.prems" show ?thesis
      by (simp add: copy_lines.simps [of sc])
  next
    case (Some line)
    obtain e s2 where fp: "Fprintf (line @ [newline]) s = (e, s2)"
      by (cases "Fprintf (line @ [newline]) s") auto
    with sc Some "1.prems" have e: "e = None"
      and rec: "copy_lines sc2 (Suc lineCount) s2 = (None, sc1, n1, s1)"
      by (auto simp: copy_lines.simps [of sc] split: option.splits)
    from sc Some have "(Some line, sc2) = Scan sc" by simp
    from "1.IH" [OF this refl _ refl, of s2] fp e rec Fprintf_ok [of "line @ [newline]" s s2]
    show ?thesis by simp
  qed
qed

lemma transcribe_succeeds:
  assumes "room (out s) = None" "werr (out s) = None"
    and "stopped (snd (scan_all (NewScanner f))) = None"
  shows "fst (transcribe f fullPath relPath s) = None"
proof -
  define t1 where "t1 = (case stat_err f of
                  Some e \<Rightarrow> logger LevelWarn ''Could not get file stats''
                              [(''path'', AString relPath), (''error'', AError (PathError e))] s
                | None \<Rightarrow> logger LevelDebug ''File info''
                              [(''path'', AString relPath), (''size'', AInt (length (bytes f)))] s)"
  have t1: "room (out t1) = None" "werr (out t1) = None"
    using assms(1,2) by (simp_all add: t1_def logger_simps split: option.splits)
  define hdr where "hdr = ''## File: '' @ relPath @ [newline]"
  obtain r2 t2 where p2: "Fprintf hdr t1 = (r2, t2)"
    by (cases "Fprintf hdr t1") auto
  with Fprintf_unlimited [OF t1, of hdr] have r2: "r2 = None" by simp
  with p2 Fprintf_ok [of hdr t1 t2] t1 have t2: "room (out t2) = None" "werr (out t2) = None"
    by simp_all
  obtain r3 t3 where p3: "Fprintf (fence @ [newline]) t2 = (r3, t3)"
    by (cases "Fprintf (fence @ [newline]) t2") auto
  with Fprintf_unlimited [OF t2, of "fence @ [newline]"] have r3: "r3 = None" by simp
  with p3 Fprintf_ok [of "fence @ [newline]" t2 t3] t2
  have t3: "room (out t3) = None" "werr (out t3) = None"
    by simp_all
  obtain r4 sc n4 t4 where p4: "copy_lines (NewScanner f) 0 t3 = (r4, sc, n4, t4)"
    by (cases "copy_lines (NewScanner f) 0 t3") auto
  with copy_lines_unlimited [OF t3, of "NewScanner f" 0] have r4: "r4 = None" by simp
  with p4 copy_lines_ok [of "NewScanner f" 0 t3 sc n4 t4] assms(3) t3
  have sc: "stopped sc = None" and "room (out t4) = None"
    by simp_all
  define t5 where "t5 = logger LevelDebug ''File processed''
                  [(''path'', AString relPath), (''lines'', AInt n4)] t4"
  obtain r6 t6 where p6: "Fprintf (fence @ [newline, newline]) t5 = (r6, t6)"
    by (cases "Fprintf (fence @ [newline, newline]) t5") auto
  from p4 r4 copy_lines_werr [of "NewScanner f" 0 t3 sc n4 t4] t3 have "werr (out t4) = None"
    by simp
  with \<open>room (out t4) = None\<close> have t5: "room (out t5) = None" "werr (out t5) = None"
    by (simp_all add: t5_def logger_simps)
  with Fprintf_unlimited [OF t5, of "fence @ [newline, newline]"] p6 have r6: "r6 = None"
    by simp
  show ?thesis
    unfolding transcribe_def Let_def t1_def [symmetric] hdr_def [symmetric]
    by (simp add: p2 p3 p4 p6 r2 r3 r4 r6 sc t5_def [symmetric])
qed

lemma processFile_succeeds:
  assumes "room (out s) = None" "werr (out s) = None"
    and "open_err f = None" "stopped (snd (scan_all (NewScanner f))) = None"
  shows "fst (processFile f fullPath relPath s) = None"
  using transcribe_succeeds [OF assms(1,2,4), of fullPath relPath] assms(3)
  by (cases "transcribe f fullPath relPath s") (simp add: processFile_def)

lemma scan_all_short:
  assumes "\<forall>(l, crlf) \<in> set ls. newline \<notin> set l \<and> length (terminated (l, crlf)) \<le> MaxScanTokenSize"
    and "newline \<notin> set rest" and "length rest < MaxScanTokenSize"
  shows "stopped (snd (scan_all \<lparr>unread = concat (map terminated ls) @ rest, pending = pe,
           stopped = st\<rparr>)) = map_option PathError pe"
  using assms
proof (induction ls)
  case Nil
  let ?sc = "\<lparr>unread = rest, pending = pe, stopped = st\<rparr>"
  have stop: "scan_all (?sc\<lparr>unread := []\<rparr>) =
      ([], ?sc\<lparr>unread := [], stopped := map_option PathError pe\<rparr>)"
    by (rule scan_all_stopped) (simp add: Scan_def)
  show ?case
  proof (cases "rest = []")
    case True
    with stop show ?thesis by simp
  next
    case False
    with Nil.prems have "Scan ?sc = (Some (dropCR rest), ?sc\<lparr>unread := []\<rparr>)"
      by (simp add: Scan_def Let_def takeWhile_tail)
    from scan_all_line [OF this] stop show ?thesis by simp
  qed
next
  case (Cons a ls)
  obtain l crlf where a: "a = (l, crlf)" by (cases a) auto
  let ?rest = "concat (map terminated ls) @ rest"
  let ?sc = "\<lparr>unread = concat (map terminated (a # ls)) @ rest, pending = pe, stopped = st\<rparr>"
  define raw where "raw = (if crlf then l @ [carriage_return] else l)"
  from Cons.prems(1) a have l: "newline \<notin> set l" "length raw < MaxScanTokenSize"
    by (auto simp: raw_def)
  have unread: "unread ?sc = raw @ newline # ?rest"
    by (simp add: a raw_def)
  have rawnl: "newline \<notin> set raw"
    using l(1) carriage_return_not_newline by (auto simp: raw_def)
  have tw: "takeWhile (\<lambda>c. c \<noteq> newline) (raw @ newline # ?rest) = raw"
    using rawnl by (rule takeWhile_line)
  from l(2) unread
  have sc: "Scan ?sc = (Some (dropCR raw), \<lparr>unread = ?rest, pending = pe, stopped = st\<rparr>)"
    by (simp add: Scan_def Let_def tw)
  from Cons.IH Cons.prems
  have "stopped (snd (scan_all \<lparr>unread = ?rest, pending = pe, stopped = st\<rparr>)) =
      map_option PathError pe"
    by simp
  then show ?case
    unfolding scan_all_line [OF sc]
    by (cases "scan_all \<lparr>unread = ?rest, pending = pe, stopped = st\<rparr>") simp
qed

lemma fresh_run_simps:
  "room (out (fresh_run limit)) = limit" "werr (out (fresh_run limit)) = None"
  "stream (out (fresh_run limit)) = []" "fileCount (fresh_run limit) = 0"
  "logged (fresh_run limit) = []"
  by (simp_all add: fresh_run_def NewWriter_def stream_def)

lemma scan_all_example:
  "scan_all (NewScanner (plain_file two_lines))
   = ([''a'', ''b''], \<lparr>unread = [], pending = None, stopped = None\<rparr>)"
  by (simp add: NewScanner_def plain_file_def two_lines_def scan_all.simps Scan_def Let_def
      newline_def carriage_return_def dropCR_def MaxScanTokenSize_def)

subsection \<open>The run header\<close>

lemma write_headers_frame:
  "write_headers hs s = (r, s1) \<Longrightarrow>
   fileCount s1 = fileCount s \<and> logged s1 = logged s \<and> room (out s1) = room (out s)"
proof (induction hs arbitrary: s)
  case Nil
  then show ?case by simp
next
  case (Cons h hs)
  obtain e s2 where fp: "Fprintf h s = (e, s2)"
    by (cases "Fprintf h s") auto
  show ?case
  proof (cases e)
    case None
    with Cons.prems fp have "write_headers hs s2 = (r, s1)"
      by (simp add: Fprint_Fprintf)
    from Cons.IH [OF this] Fprintf_frame [OF fp] show ?thesis by simp
  next
    case (Some err)
    with Cons.prems fp Fprintf_frame [OF fp] show ?thesis
      by (auto simp: Fprint_Fprintf)
  qed
qed

lemma write_headers_ok:
  "write_headers hs s = (None, s1) \<Longrightarrow>
   stream (out s1) = stream (out s) @ concat hs \<and>
   (werr (out s) = None \<longrightarrow> werr (out s1) = None)"
proof (induction hs arbitrary: s)
  case Nil
  then show ?case by simp
next
  case (Cons h hs)
  obtain e s2 where fp: "Fprintf h s = (e, s2)"
    by (cases "Fprintf h s") auto
  with Cons.prems have e: "e = None" and rest: "write_headers hs s2 = (None, s1)"
    by (auto simp: Fprint_Fprintf split: option.splits)
  from Cons.IH [OF rest] Fprintf_ok [of h s s2] fp e show ?case
    by simp
qed

lemma write_headers_unlimited:
  "room (out s) = None \<Longrightarrow> werr (out s) = None \<Longrightarrow> fst (write_headers hs s) = None"
proof (induction hs arbitrary: s)
  case Nil
  then show ?case by simp
next
  case (Cons h hs)
  obtain e s2 where fp: "Fprintf h s = (e, s2)"
    by (cases "Fprintf h s") auto
  with Fprintf_unlimited [OF Cons.prems, of h] have e: "e = None" by simp
  with fp Fprintf_ok [of h s s2] Cons.prems have "room (out s2) = None" "werr (out s2) = None"
    by simp_all
  from Cons.IH [OF this] fp e show ?case
    by (simp add: Fprint_Fprintf)
qed

lemma has_git_iff: "has_git dirs = (''.git'' \<in> set dirs)"
  by (induction dirs) auto

lemma Join_member:
  "x \<in> set xs \<Longrightarrow> \<exists>before after. Join xs sep = before @ x @ after"
proof (induction xs sep rule: Join.induct)
  case (1 sep)
  then show ?case by simp
next
  case (2 e sep)
  then have "Join [e] sep = [] @ x @ []" by simp
  then show ?case by blast
next
  case (3 e v va sep)
  show ?case
  proof (cases "x = e")
    case True
    then have "Join (e # v # va) sep = [] @ x @ (sep @ Join (v # va) sep)" by simp
    then show ?thesis by blast
  next
    case False
    with 3 obtain before after where "Join (v # va) sep = before @ x @ after"
      by auto
    then have "Join (e # v # va) sep = (e @ sep @ before) @ x @ after" by simp
    then show ?thesis by blast
  qed
qed

lemma header_lines_excluded:
  "\<exists>before after. concat (header_lines absPath config) =
     before @ ''# Excluded directories: '' @ Join (excludeDirs config) '', '' @ [newline] @ after"
proof (cases "0 < length (includeExts config)")
  case True
  then have "concat (header_lines absPath config) =
     (''# Contextify Output'' @ [newline] @ ''# Generated from: '' @ absPath @ [newline])
     @ ''# Excluded directories: '' @ Join (excludeDirs config) '', '' @ [newline]
     @ (''# Included extensions: '' @ Join (includeExts config) '', '' @ [newline] @ [newline])"
    by (simp add: header_lines_def)
  then show ?thesis by blast
next
  case False
  then have "concat (header_lines absPath config) =
     (''# Contextify Output'' @ [newline] @ ''# Generated from: '' @ absPath @ [newline])
     @ ''# Excluded directories: '' @ Join (excludeDirs config) '', '' @ [newline]
     @ [newline]"
    by (simp add: header_lines_def)
  then show ?thesis by blast
qed

lemma example_config:
  "excludeDirs (newConfig no_trim example_flags) = [''node_modules'', ''.git'']"
  "includeExts (newConfig no_trim example_flags) = [''.go'']"
  "excludeMap (newConfig no_trim example_flags) = createLookupMap [''node_modules'', ''.git'']"
  "includeMap (newConfig no_trim example_flags) = createLookupMap [''.go'']"
  by (simp_all add: newConfig_def example_flags_def no_trim_def parseCommaSeparated_def
      comma_def ensureGitExcluded_def Let_def)

subsection \<open>The deferred flush and close\<close>

lemma Write_small:
  "werr b = None \<Longrightarrow> length p \<le> Available b \<Longrightarrow> Write b p = (b\<lparr>buf := buf b @ p\<rparr>, None)"
  by (simp add: Write_def write_loop_done)

lemma Rel_self: "Rel os base base = Inr ''.''"
  by (simp add: Rel_def)

lemma failing_world_walk:
  "walk_all Unix (newConfig no_trim example_flags) ''/r'' (Inr (Unlistable ''permission denied''))
     \<lparr>out = NewWriter (Some 0), fileCount = 0, logged = lg\<rparr> =
   (Some (PathError ''permission denied''),
    \<lparr>out = \<lparr>flushed = [],
             buf = concat (header_lines ''/r'' (newConfig no_trim example_flags)),
             werr = None, room = Some 0\<rparr>,
     fileCount = 0,
     logged = lg @ [(LevelWarn, ''Error accessing path'',
                [(''path'', AString ''/r''), (''error'', AError (PathError ''permission denied''))])]\<rparr>)"
  by (simp add: walk_all_def writeHeader_def header_lines_def example_config Fprint_def
      Write_small NewWriter_def Available_def defaultBufSize_def WalkDir_def skipped_def
      walkFn_def Rel_self shouldExcludeDir_def is_empty_createLookupMap any_part_excluded_iff
      index_createLookupMap slash_def logger_def)

lemma full_disk_world_walk:
  "walk_all Unix (newConfig no_trim example_flags) ''/r'' (Inr (Dir []))
     \<lparr>out = NewWriter (Some 0), fileCount = 0, logged = lg\<rparr> =
   (None,
    \<lparr>out = \<lparr>flushed = [],
             buf = concat (header_lines ''/r'' (newConfig no_trim example_flags)),
             werr = None, room = Some 0\<rparr>,
     fileCount = 0,
     logged = lg @ [(LevelInfo, ''Processing completed'', [(''filesProcessed'', AInt 0)])]\<rparr>)"
  by (simp add: walk_all_def writeHeader_def header_lines_def example_config Fprint_def
      Write_small NewWriter_def Available_def defaultBufSize_def WalkDir_def skipped_def
      walkFn_def Rel_self shouldExcludeDir_def is_empty_createLookupMap any_part_excluded_iff
      index_createLookupMap slash_def logger_def)

lemma Flush_full_disk:
  "buf b \<noteq> [] \<Longrightarrow> werr b = None \<Longrightarrow> room b = Some 0 \<Longrightarrow> flushed b = [] \<Longrightarrow>
   Flush b = (b\<lparr>werr := Some ''no space left on device''\<rparr>, Some ''no space left on device'')"
  by (simp add: Flush_def file_Write_def)

lemma header_lines_not_empty: "concat (header_lines absPath config) \<noteq> []"
  by (simp add: header_lines_def Let_def)

lemma Flush_header_full_disk:
  "Flush \<lparr>flushed = [], buf = concat (header_lines absPath config), werr = None,
          room = Some 0\<rparr> =
   (\<lparr>flushed = [], buf = concat (header_lines absPath config),
     werr = Some ''no space left on device'', room = Some 0\<rparr>,
    Some ''no space left on device'')"
  using Flush_full_disk [of "\<lparr>flushed = [], buf = concat (header_lines absPath config),
      werr = None, room = Some 0\<rparr>"] header_lines_not_empty [of absPath config]
  by simp

subsection \<open>Paths of the walk\<close>

lemma within_root_self: "within_root os absPath absPath"
  by (simp add: within_root_def)

lemma within_root_JoinPath: "within_root os absPath path \<Longrightarrow> within_root os absPath (JoinPath os path name)"
proof -
  assume "within_root os absPath path"
  then consider "path = absPath" | "prefix (with_separator os absPath) path"
    by (auto simp: within_root_def)
  then show ?thesis
  proof cases
    case 1
    then show ?thesis by (simp add: within_root_def JoinPath_def)
  next
    case 2
    have "prefix path (with_separator os path)"
      by (simp add: with_separator_def)
    with 2 have "prefix (with_separator os absPath) (with_separator os path @ name)"
      by (meson prefix_order.trans prefixI prefix_prefix)
    then show ?thesis by (simp add: within_root_def JoinPath_def)
  qed
qed

lemma Rel_within_root: "within_root os absPath path \<Longrightarrow> Rel os absPath path = Inr (relative os absPath path)"
  by (auto simp: within_root_def Rel_def relative_def)

subsection \<open>The files of a tree\<close>

lemma all_files_above:
  "(q, ab, f) \<in> set (all_files os path outer d) \<Longrightarrow> prefix outer ab"
  "(q, ab, f) \<in> set (all_entries os path outer entries) \<Longrightarrow> prefix outer ab"
proof (induction os path outer d and os path outer entries rule: all_files_all_entries.induct)
  case (2 os path outer entries)
  then have "prefix (outer @ [path]) ab" by simp
  then show ?case by (meson append_prefixD)
qed auto

lemma chosen_none:
  assumes "\<not> list_all (\<lambda>dir. \<not> excluded os config absPath dir) outer"
  shows "filter (chosen os config absPath) (all_files os path outer d) = []"
    and "filter (chosen os config absPath) (all_entries os path outer entries) = []"
proof -
  have "\<not> chosen os config absPath (q, ab, f)" if "prefix outer ab" for q ab f
  proof -
    from that obtain more where "ab = outer @ more" by (auto simp: prefix_def)
    with assms show ?thesis by (simp add: chosen_def)
  qed
  with all_files_above [of _ _ _ os path outer]
  show "filter (chosen os config absPath) (all_files os path outer d) = []"
    "filter (chosen os config absPath) (all_entries os path outer entries) = []"
    by (auto simp: filter_empty_conv)
qed

subsection \<open>Transcribed files\<close>

lemma transcribed_none:
  "out s1 = out s \<Longrightarrow> fileCount s1 = fileCount s \<Longrightarrow> transcribed os absPath [] s s1"
  by (simp add: transcribed_def sections_def)

lemma transcribed_append:
  "transcribed os absPath xs s s1 \<Longrightarrow> transcribed os absPath ys s1 s2 \<Longrightarrow>
   transcribed os absPath (xs @ ys) s s2"
  by (simp add: transcribed_def sections_def)

subsection \<open>The callback of the walk\<close>

lemma copy_lines_error:
  "copy_lines sc n s = (Some err, sc1, n1, s1) \<Longrightarrow> err \<noteq> SkipDir"
proof (induction sc n s rule: copy_lines.induct)
  case (1 sc lineCount s)
  obtain tok sc2 where sc: "Scan sc = (tok, sc2)"
    by (cases "Scan sc") auto
  show ?case
  proof (cases tok)
    case None
    with sc "1.prems" show ?thesis
      by (simp add: copy_lines.simps [of sc])
  next
    case (Some line)
    obtain e s2 where fp: "Fprintf (line @ [newline]) s = (e, s2)"
      by (cases "Fprintf (line @ [newline]) s") auto
    show ?thesis
    proof (cases e)
      case None
      from sc Some have "(Some line, sc2) = Scan sc" by simp
      from "1.IH" [OF this refl _ refl, of s2] fp None sc Some "1.prems"
      show ?thesis
        by (simp add: copy_lines.simps [of sc])
    next
      case (Some e')
      with sc \<open>tok = Some line\<close> fp "1.prems" show ?thesis
        by (auto simp: copy_lines.simps [of sc])
    qed
  qed
qed

lemma transcribe_error: "transcribe f fullPath relPath s = (Some err, s1) \<Longrightarrow> err \<noteq> SkipDir"
proof -
  assume a: "transcribe f fullPath relPath s = (Some err, s1)"
  define t1 where "t1 = (case stat_err f of
                  Some e \<Rightarrow> logger LevelWarn ''Could not get file stats''
                              [(''path'', AString relPath), (''error'', AError (PathError e))] s
                | None \<Rightarrow> logger LevelDebug ''File info''
                              [(''path'', AString relPath), (''size'', AInt (length (bytes f)))] s)"
  define hdr where "hdr = ''## File: '' @ relPath @ [newline]"
  obtain r2 t2 where p2: "Fprintf hdr t1 = (r2, t2)"
    by (cases "Fprintf hdr t1") auto
  obtain r3 t3 where p3: "Fprintf (fence @ [newline]) t2 = (r3, t3)"
    by (cases "Fprintf (fence @ [newline]) t2") auto
  obtain r4 sc n4 t4 where p4: "copy_lines (NewScanner f) 0 t3 = (r4, sc, n4, t4)"
    by (cases "copy_lines (NewScanner f) 0 t3") auto
  define t5 where "t5 = logger LevelDebug ''File processed''
                  [(''path'', AString relPath), (''lines'', AInt n4)] t4"
  obtain r6 t6 where p6: "Fprintf (fence @ [newline, newline]) t5 = (r6, t6)"
    by (cases "Fprintf (fence @ [newline, newline]) t5") auto
  from a have "(\<exists>m e. err = Wrapped m e) \<or> r4 = Some err"
    unfolding transcribe_def Let_def t1_def [symmetric] hdr_def [symmetric]
    by (auto simp: p2 p3 p4 p6 t5_def [symmetric] split: option.splits)
  with copy_lines_error [of "NewScanner f" 0 t3 err sc n4 t4] p4 show ?thesis
    by auto
qed

lemma processFile_error: "processFile f fullPath relPath s = (Some err, s1) \<Longrightarrow> err \<noteq> SkipDir"
proof (cases "open_err f")
  case None
  assume a: "processFile f fullPath relPath s = (Some err, s1)"
  obtain r2 s2 where t: "transcribe f fullPath relPath s = (r2, s2)"
    by (cases "transcribe f fullPath relPath s") auto
  with a None have "r2 = Some err"
    by (simp add: processFile_def)
  with t transcribe_error show ?thesis by blast
next
  case (Some e)
  assume "processFile f fullPath relPath s = (Some err, s1)"
  with Some show ?thesis by (auto simp: processFile_def)
qed

lemma walkFn_file:
  assumes "within_root os absPath path"
    and "list_all (\<lambda>dir. \<not> excluded os config absPath dir) outer"
    and "walkFn os config absPath path (Some (File f)) None s = (r, s1)"
  shows "r \<noteq> Some SkipDir \<and> room (out s1) = room (out s) \<and>
         (r = None \<longrightarrow>
          transcribed os absPath (filter (chosen os config absPath) [(path, outer, f)]) s s1)"
proof (cases "shouldIncludeFile os path (includeMap config)")
  case False
  with assms(3) Rel_within_root [OF assms(1)]
  have "r = None" "s1 = logger LevelDebug ''Skipping file (extension not included)''
                        [(''path'', AString (relative os absPath path))] s"
    by (simp_all add: walkFn_def)
  with False show ?thesis
    by (simp add: chosen_def logger_simps transcribed_none)
next
  case True
  note rel = Rel_within_root [OF assms(1)]
  define s0 where "s0 = logger LevelDebug ''Processing file''
      [(''path'', AString (relative os absPath path))] s"
  obtain r2 s2 where pf: "processFile f path (relative os absPath path) s0 = (r2, s2)"
    by (cases "processFile f path (relative os absPath path) s0") auto
  have s0: "out s0 = out s" "fileCount s0 = fileCount s"
    by (simp_all add: s0_def logger_simps)
  show ?thesis
  proof (cases r2)
    case None
    with assms(3) rel True pf have r: "r = None" and s1: "s1 = s2\<lparr>fileCount := Suc (fileCount s2)\<rparr>"
      by (simp_all add: walkFn_def s0_def)
    from pf None processFile_ok [of f path "relative os absPath path" s0 s2]
      processFile_frame [OF pf] s0 s1 True assms(2) r
    show ?thesis
      by (simp add: transcribed_def sections_def chosen_def)
  next
    case (Some e)
    with assms(3) rel True pf have r: "r = Some e"
      and s1: "s1 = logger LevelError ''Failed to process file''
                          [(''path'', AString (relative os absPath path)), (''error'', AError e)] s2"
      by (simp_all add: walkFn_def s0_def)
    from pf Some processFile_error have "e \<noteq> SkipDir" by blast
    with r s1 processFile_frame [OF pf] s0 show ?thesis
      by (simp add: logger_simps)
  qed
qed

lemma walkFn_dir:
  assumes "within_root os absPath path" and "IsDir d"
  shows "walkFn os config absPath path (Some d) None s =
         (if excluded os config absPath path
          then (Some SkipDir, logger LevelDebug ''Excluding directory''
                                [(''path'', AString (relative os absPath path))] s)
          else (None, s))"
  using assms(2) Rel_within_root [OF assms(1)]
  by (cases d) (simp_all add: walkFn_def excluded_def)

lemma walkFn_err:
  "walkFn os config absPath path d (Some e) s =
   (Some e, logger LevelWarn ''Error accessing path''
              [(''path'', AString path), (''error'', AError e)] s)"
  by (simp add: walkFn_def)

subsection \<open>The walk\<close>

lemma transcribed_room: "transcribed os absPath files s s1 \<Longrightarrow> room (out s1) = room (out s)"
  by (simp add: transcribed_def)

lemma walk_transcribes:
  "fn = walkFn os config absPath \<Longrightarrow> within_root os absPath path \<Longrightarrow>
   list_all (\<lambda>dir. \<not> excluded os config absPath dir) outer \<Longrightarrow>
   walkDir os fn path d s = (r, s1) \<Longrightarrow>
   r \<noteq> Some SkipDir \<and> room (out s1) = room (out s) \<and>
   (r = None \<longrightarrow>
    transcribed os absPath (filter (chosen os config absPath) (all_files os path outer d)) s s1)"
  "fn = walkFn os config absPath \<Longrightarrow> within_root os absPath path \<Longrightarrow>
   list_all (\<lambda>dir. \<not> excluded os config absPath dir) outer \<Longrightarrow>
   walkEntries os fn path entries s = (r, s1) \<Longrightarrow>
   r \<noteq> Some SkipDir \<and> room (out s1) = room (out s) \<and>
   (r = None \<longrightarrow>
    transcribed os absPath (filter (chosen os config absPath) (all_entries os path outer entries))
      s s1)"
proof (induction os fn path d s and os fn path entries s arbitrary: outer r s1 and outer r s1
    rule: walkDir_walkEntries.induct)
  case (1 os fn path f s)
  from walkFn_file [OF "1.prems"(2,3), of f s r s1] "1.prems"(1,4) show ?case
    by simp
next
  case (2 os fn path entries s)
  note cb = walkFn_dir [OF "2.prems"(2), of "Dir entries" config s]
  show ?case
  proof (cases "excluded os config absPath path")
    case True
    with "2.prems"(1,4) cb have r: "r = None"
      and s1: "s1 = logger LevelDebug ''Excluding directory''
                                [(''path'', AString (relative os absPath path))] s"
      by (simp_all add: skipped_def)
    from True have "\<not> list_all (\<lambda>dir. \<not> excluded os config absPath dir) (outer @ [path])"
      by simp
    from chosen_none(2) [OF this]
    have "filter (chosen os config absPath) (all_files os path outer (Dir entries)) = []"
      by simp
    with r s1 show ?thesis
      by (simp add: logger_simps transcribed_none)
  next
    case False
    with "2.prems"(1) cb have c: "(None, s) = fn path (Some (Dir entries)) None s"
      by simp
    with "2.prems"(4) have w: "walkEntries os fn path entries s = (r, s1)"
      by (auto split: prod.splits option.splits)
    from False "2.prems"(3) have "list_all (\<lambda>dir. \<not> excluded os config absPath dir) (outer @ [path])"
      by simp
    from "2.IH" [OF c refl "2.prems"(1,2) this w] show ?thesis
      by simp
  qed
next
  case (3 os fn path e s)
  note cb = walkFn_dir [OF "3.prems"(2), of "Unlistable e" config s]
  show ?case
  proof (cases "excluded os config absPath path")
    case True
    with "3.prems"(1,4) cb have r: "r = None"
      and s1: "s1 = logger LevelDebug ''Excluding directory''
                                [(''path'', AString (relative os absPath path))] s"
      by (simp_all add: skipped_def)
    then show ?thesis
      by (simp add: logger_simps transcribed_none)
  next
    case False
    with "3.prems"(1,4) cb walkFn_err [of os config absPath path "Some (Unlistable e)" "PathError e" s]
    have "r = Some (PathError e)"
      and "s1 = logger LevelWarn ''Error accessing path''
              [(''path'', AString path), (''error'', AError (PathError e))] s"
      by (simp_all add: skipped_def)
    then show ?thesis
      by (simp add: logger_simps)
  qed
next
  case (4 os fn path s)
  then show ?case
    by (simp add: transcribed_none)
next
  case (5 os fn path name d1 dirs s)
  obtain r1 t1 where w1: "walkDir os fn (JoinPath os path name) d1 s = (r1, t1)"
    by (cases "walkDir os fn (JoinPath os path name) d1 s") auto
  from "5.IH"(1) [OF "5.prems"(1) within_root_JoinPath [OF "5.prems"(2)] "5.prems"(3) w1]
  have i1: "r1 \<noteq> Some SkipDir" "room (out t1) = room (out s)"
    "r1 = None \<Longrightarrow> transcribed os absPath
        (filter (chosen os config absPath) (all_files os (JoinPath os path name) outer d1)) s t1"
    by simp_all
  show ?case
  proof (cases r1)
    case None
    with w1 "5.prems"(4) have w2: "walkEntries os fn path dirs t1 = (r, s1)"
      by simp
    from w1 None have "(None, t1) = walkDir os fn (JoinPath os path name) d1 s"
      by simp
    from "5.IH"(2) [OF this refl "5.prems"(1,2,3) w2] i1(2) i1(3) [OF None]
    show ?thesis
      by (auto intro: transcribed_append)
  next
    case (Some err)
    with w1 "5.prems"(4) i1 show ?thesis
      by (auto split: if_splits)
  qed
qed

subsection \<open>A walk that cannot fail\<close>

lemma walkFn_file_succeeds:
  assumes "within_root os absPath path" and "readable os config absPath path (File f)"
    and "room (out s) = None" and "werr (out s) = None"
  shows "fst (walkFn os config absPath path (Some (File f)) None s) = None"
proof (cases "shouldIncludeFile os path (includeMap config)")
  case False
  with Rel_within_root [OF assms(1)] show ?thesis
    by (simp add: walkFn_def)
next
  case True
  define s0 where "s0 = logger LevelDebug ''Processing file''
      [(''path'', AString (relative os absPath path))] s"
  have "room (out s0) = None" "werr (out s0) = None"
    using assms(3,4) by (simp_all add: s0_def logger_simps)
  moreover from True assms(2)
  have "open_err f = None" "stopped (snd (scan_all (NewScanner f))) = None"
    by simp_all
  ultimately have "fst (processFile f path (relative os absPath path) s0) = None"
    by (rule processFile_succeeds)
  with True Rel_within_root [OF assms(1)] show ?thesis
    by (cases "processFile f path (relative os absPath path) s0") (simp add: walkFn_def s0_def)
qed

lemma walk_succeeds:
  "fn = walkFn os config absPath \<Longrightarrow> within_root os absPath path \<Longrightarrow>
   readable os config absPath path d \<Longrightarrow> room (out s) = None \<Longrightarrow> werr (out s) = None \<Longrightarrow>
   fst (walkDir os fn path d s) = None"
  "fn = walkFn os config absPath \<Longrightarrow> within_root os absPath path \<Longrightarrow>
   readable_entries os config absPath path entries \<Longrightarrow> room (out s) = None \<Longrightarrow>
   werr (out s) = None \<Longrightarrow>
   fst (walkEntries os fn path entries s) = None"
proof (induction os fn path d s and os fn path entries s rule: walkDir_walkEntries.induct)
  case (1 os fn path f s)
  from walkFn_file_succeeds [OF "1.prems"(2,3,4,5)] "1.prems"(1) show ?case
    by simp
next
  case (2 os fn path entries s)
  note cb = walkFn_dir [OF "2.prems"(2), of "Dir entries" config s]
  show ?case
  proof (cases "excluded os config absPath path")
    case True
    with "2.prems"(1) cb show ?thesis
      by (simp add: skipped_def)
  next
    case False
    with "2.prems"(1) cb have c: "(None, s) = fn path (Some (Dir entries)) None s"
      by simp
    from False "2.prems"(3) have "readable_entries os config absPath path entries"
      by simp
    from "2.IH" [OF c refl "2.prems"(1,2) this "2.prems"(4,5)] c [symmetric] show ?thesis
      by simp
  qed
next
  case (3 os fn path e s)
  with walkFn_dir [OF "3.prems"(2), of "Unlistable e" config s] show ?case
    by (simp add: skipped_def)
next
  case (4 os fn path s)
  then show ?case by simp
next
  case (5 os fn path name d1 dirs s)
  obtain r1 t1 where w1: "walkDir os fn (JoinPath os path name) d1 s = (r1, t1)"
    by (cases "walkDir os fn (JoinPath os path name) d1 s") auto
  from "5.prems"(3) have rd: "readable os config absPath (JoinPath os path name) d1"
    "readable_entries os config absPath path dirs"
    by simp_all
  from "5.IH"(1) [OF "5.prems"(1) within_root_JoinPath [OF "5.prems"(2)] rd(1) "5.prems"(4,5)] w1
  have r1: "r1 = None" by simp
  from walk_transcribes(1) [OF "5.prems"(1) within_root_JoinPath [OF "5.prems"(2)] _ w1, of "[]"] r1
    "5.prems"(4,5)
  have t1: "room (out t1) = None" "werr (out t1) = None"
    by (simp_all add: transcribed_def)
  from w1 r1 have "(None, t1) = walkDir os fn (JoinPath os path name) d1 s"
    by simp
  from "5.IH"(2) [OF this refl "5.prems"(1,2) rd(2) t1] w1 r1 show ?case
    by simp
qed

subsection \<open>The whole run\<close>

lemma Flush_ok: "Flush b = (b1, None) \<Longrightarrow> flushed b1 = stream b"
  by (auto simp: Flush_def stream_def file_Write_def Let_def
      split: option.splits if_splits prod.splits)

lemma Flush_prefix: "prefix (flushed (fst (Flush b))) (stream b)"
proof -
  obtain b1 e where f: "Flush b = (b1, e)"
    by (cases "Flush b") auto
  from Flush_stream [OF this] have "stream b = flushed b1 @ buf b1"
    by (simp add: stream_def)
  with f show ?thesis by simp
qed

lemma walk_all_ok:
  assumes "walk_all os config absPath (Inr tree) s = (None, s1)"
  shows "stream (out s1) = stream (out s) @ complete_output os config absPath tree"
    and "logged s1 \<noteq> [] \<and>
         last (logged s1) = completed (fileCount s + length (selected os config absPath tree))"
    and "room (out s1) = room (out s)"
    and "werr (out s) = None \<Longrightarrow> werr (out s1) = None"
proof -
  obtain rh sh where h: "writeHeader absPath config s = (rh, sh)"
    by (cases "writeHeader absPath config s") auto
  obtain rw sw where wd: "walkDir os (walkFn os config absPath) absPath tree sh = (rw, sw)"
    by (cases "walkDir os (walkFn os config absPath) absPath tree sh") auto
  from assms h have rh: "rh = None"
    by (auto simp: walk_all_def split: option.splits)
  from walk_transcribes(1) [OF refl within_root_self _ wd, of "[]"]
  have nskip: "rw \<noteq> Some SkipDir"
    and tr: "rw = None \<Longrightarrow> transcribed os absPath (selected os config absPath tree) sh sw"
    by (simp_all add: selected_def)
  from assms h rh wd nskip have rw: "rw = None"
    and s1: "s1 = logger LevelInfo ''Processing completed'' [(''filesProcessed'', AInt (fileCount sw))] sw"
    by (auto simp: walk_all_def WalkDir_def skipped_def split: option.splits if_splits)
  from h rh have hs: "stream (out sh) = stream (out s) @ concat (header_lines absPath config)"
    "werr (out s) = None \<longrightarrow> werr (out sh) = None"
    "fileCount sh = fileCount s" "room (out sh) = room (out s)"
    using write_headers_ok [of "header_lines absPath config" s sh]
      write_headers_frame [of "header_lines absPath config" s None sh]
    by (simp_all add: writeHeader_def)
  from tr [OF rw] hs s1
  show "stream (out s1) = stream (out s) @ complete_output os config absPath tree"
    "logged s1 \<noteq> [] \<and>
         last (logged s1) = completed (fileCount s + length (selected os config absPath tree))"
    "room (out s1) = room (out s)"
    "werr (out s) = None \<Longrightarrow> werr (out s1) = None"
    by (simp_all add: transcribed_def complete_output_def logger_simps completed_def)
qed

lemma walk_all_succeeds:
  assumes "readable os config absPath absPath tree" "room (out s) = None" "werr (out s) = None"
  shows "fst (walk_all os config absPath (Inr tree) s) = None"
proof -
  obtain rh sh where h: "writeHeader absPath config s = (rh, sh)"
    by (cases "writeHeader absPath config s") auto
  with write_headers_unlimited [OF assms(2,3), of "header_lines absPath config"]
  have rh: "rh = None" by (simp add: writeHeader_def)
  with h assms(2,3) have sh: "room (out sh) = None" "werr (out sh) = None"
    using write_headers_ok [of "header_lines absPath config" s sh]
      write_headers_frame [of "header_lines absPath config" s None sh]
    by (simp_all add: writeHeader_def)
  from walk_succeeds(1) [OF refl within_root_self assms(1) sh]
  have "fst (walkDir os (walkFn os config absPath) absPath tree sh) = None" .
  with h rh show ?thesis
    by (cases "walkDir os (walkFn os config absPath) absPath tree sh")
      (simp add: walk_all_def WalkDir_def skipped_def)
qed

lemma processDirectory_ok:
  assumes "processDirectory os config w = (None, res)"
    and "abs_path w = Inr absPath" and "root w = Inr tree"
  shows "completed (length (selected os config absPath tree)) \<in> set (records res)"
    and "\<exists>txt. written res = Some txt \<and> prefix txt (complete_output os config absPath tree)"
    and "out_room w = None \<Longrightarrow> written res = Some (complete_output os config absPath tree)"
proof -
  let ?s0 = "\<lparr>out = NewWriter (out_room w), fileCount = 0,
      logged = [(LevelDebug, ''Processing directory'', [(''absolutePath'', AString absPath)])]\<rparr>"
  from assms(1,2) have c: "create_err w = None"
    by (auto simp: processDirectory_def Let_def split: option.splits)
  obtain r s where wa: "walk_all os config absPath (Inr tree) ?s0 = (r, s)"
    by (cases "walk_all os config absPath (Inr tree) ?s0") auto
  with assms c have r: "r = None" and res: "res = deferred w s"
    by (simp_all add: processDirectory_def Let_def)
  note ok = walk_all_ok [OF wa [unfolded r]]
  have init: "stream (out ?s0) = []" "werr (out ?s0) = None" "room (out ?s0) = out_room w"
    by (simp_all add: NewWriter_def stream_def)
  obtain b e where f: "Flush (out s) = (b, e)"
    by (cases "Flush (out s)") auto
  then have w: "written res = Some (flushed b)"
    and rec: "set (logged s) \<subseteq> set (records res)"
    by (auto simp: res deferred_def Let_def logger_def split: option.splits)
  from ok(2) have "completed (length (selected os config absPath tree)) \<in> set (logged s)"
    using last_in_set [of "logged s"] by simp
  with rec show "completed (length (selected os config absPath tree)) \<in> set (records res)"
    by blast
  from Flush_prefix [of "out s"] f ok(1) init w
  show "\<exists>txt. written res = Some txt \<and> prefix txt (complete_output os config absPath tree)"
    by simp
  show "written res = Some (complete_output os config absPath tree)" if "out_room w = None"
  proof -
    from that ok(3,4) init have "room (out s) = None" "werr (out s) = None"
      by simp_all
    from Flush_unlimited [OF this] f have "e = None" by simp
    with Flush_ok [of "out s" b] f ok(1) init w show ?thesis
      by simp
  qed
qed

lemma processDirectory_succeeds:
  assumes "abs_path w = Inr absPath" and "root w = Inr tree" and "create_err w = None"
    and "out_room w = None" and "readable os config absPath absPath tree"
  shows "fst (processDirectory os config w) = None"
proof -
  let ?s0 = "\<lparr>out = NewWriter (out_room w), fileCount = 0,
      logged = [(LevelDebug, ''Processing directory'', [(''absolutePath'', AString absPath)])]\<rparr>"
  have "fst (walk_all os config absPath (Inr tree) ?s0) = None"
    by (rule walk_all_succeeds [OF assms(5)]) (simp_all add: NewWriter_def assms(4))
  with assms(1,2,3) show ?thesis
    by (cases "walk_all os config absPath (Inr tree) ?s0") (simp add: processDirectory_def Let_def)
qed

subsection \<open>The example tree\<close>

lemma example_paths:
  "JoinPath Unix ''/r'' ''a.go'' = ''/r/a.go''"
  "JoinPath Unix ''/r'' ''b.txt'' = ''/r/b.txt''"
  "JoinPath Unix ''/r'' ''node_modules'' = ''/r/node_modules''"
  "JoinPath Unix ''/r/node_modules'' ''ignored.go'' = ''/r/node_modules/ignored.go''"
  "JoinPath Unix ''/r'' ''sub'' = ''/r/sub''"
  "JoinPath Unix ''/r/sub'' ''c.go'' = ''/r/sub/c.go''"
  by (simp_all add: JoinPath_def with_separator_def slash_def)

lemma example_relative:
  "relative Unix ''/r'' ''/r'' = ''.''"
  "relative Unix ''/r'' ''/r/a.go'' = ''a.go''"
  "relative Unix ''/r'' ''/r/node_modules'' = ''node_modules''"
  "relative Unix ''/r'' ''/r/sub'' = ''sub''"
  "relative Unix ''/r'' ''/r/sub/c.go'' = ''sub/c.go''"
  by (simp_all add: relative_def Rel_def with_separator_def slash_def)

lemma example_excluded:
  "\<not> excluded Unix (newConfig no_trim example_flags) ''/r'' ''/r''"
  "excluded Unix (newConfig no_trim example_flags) ''/r'' ''/r/node_modules''"
  "\<not> excluded Unix (newConfig no_trim example_flags) ''/r'' ''/r/sub''"
  by (simp_all add: excluded_def example_relative example_config shouldExcludeDir_def
      is_empty_createLookupMap any_part_excluded_iff index_createLookupMap slash_def)

lemma example_included:
  "shouldIncludeFile Unix ''/r/a.go'' (includeMap (newConfig no_trim example_flags))"
  "\<not> shouldIncludeFile Unix ''/r/b.txt'' (includeMap (newConfig no_trim example_flags))"
  "shouldIncludeFile Unix ''/r/sub/c.go'' (includeMap (newConfig no_trim example_flags))"
  by (simp_all add: example_config shouldIncludeFile_def is_empty_createLookupMap
      index_createLookupMap Ext_def dot_def slash_def)

lemma example_selected:
  "selected Unix (newConfig no_trim example_flags) ''/r'' example_tree =
     [(''/r/a.go'', [''/r''], plain_file two_lines),
      (''/r/sub/c.go'', [''/r'', ''/r/sub''], plain_file two_lines)]"
  by (simp add: selected_def example_tree_def example_paths chosen_def example_excluded
      example_included)

lemma example_readable:
  "readable Unix (newConfig no_trim example_flags) ''/r'' ''/r'' example_tree"
  by (simp add: example_tree_def example_paths example_excluded example_included
      scan_all_example, simp add: plain_file_def)

lemma example_output:
  "complete_output Unix (newConfig no_trim example_flags) ''/r'' example_tree =
     concat (header_lines ''/r'' (newConfig no_trim example_flags))
     @ section_of ''a.go'' (plain_file two_lines) @ section_of ''sub/c.go'' (plain_file two_lines)"
  by (simp add: complete_output_def example_selected sections_def example_relative)

lemma example_world_run:
  "processDirectory Unix (newConfig no_trim example_flags) example_world =
     (None, snd (processDirectory Unix (newConfig no_trim example_flags) example_world))"
proof -
  have "fst (processDirectory Unix (newConfig no_trim example_flags) example_world) = None"
    by (rule processDirectory_succeeds [where absPath = "''/r''" and tree = example_tree])
      (simp_all add: example_world_def example_readable)
  then show ?thesis by (simp add: prod_eq_iff)
qed

lemma empty_world_run:
  "processDirectory Unix (newConfig no_trim example_flags) empty_world =
     (None, snd (processDirectory Unix (newConfig no_trim example_flags) empty_world))"
proof -
  have "fst (processDirectory Unix (newConfig no_trim example_flags) empty_world) = None"
    by (rule processDirectory_succeeds [where absPath = "''/r''" and tree = "Dir []"])
      (simp_all add: empty_world_def example_world_def example_excluded)
  then show ?thesis by (simp add: prod_eq_iff)
qed


subsection \<open>The count of files\<close>

lemma empty_selected: "selected os config absPath (Dir []) = []"
  by (simp add: selected_def)

subsection \<open>TreeWalker: errors\<close>

lemma scan_all_pending:
  "pending sc = Some e \<Longrightarrow>
   stopped (snd (scan_all sc)) = Some (PathError e) \<or> stopped (snd (scan_all sc)) = Some ErrTooLong"
proof (induction sc rule: scan_all.induct)
  case (1 sc)
  obtain tok sc1 where s: "Scan sc = (tok, sc1)"
    by (cases "Scan sc") auto
  show ?case
  proof (cases tok)
    case None
    with s "1.prems" scan_all_stopped [of sc sc1] show ?thesis
      by (auto simp: Scan_def Let_def split: if_splits)
  next
    case (Some line)
    with s "1.prems" have p: "pending sc1 = Some e"
      by (auto simp: Scan_def Let_def split: if_splits)
    from s Some have "(Some line, sc1) = Scan sc" by simp
    from "1.IH" [OF this refl p] scan_all_line [of sc line sc1] s Some show ?thesis
      by (cases "scan_all sc1") simp
  qed
qed

lemma processFile_read_error:
  assumes "read_err f = Some e" and "processFile f fullPath relPath s = (r, s1)"
  shows "r \<noteq> None"
proof
  assume "r = None"
  with assms(2) processFile_ok(3) [of f fullPath relPath s s1]
  have "stopped (snd (scan_all (NewScanner f))) = None"
    by simp
  moreover have "pending (NewScanner f) = Some e"
    using assms(1) by (simp add: NewScanner_def)
  ultimately show False
    using scan_all_pending [of "NewScanner f" e] by simp
qed

lemma walkEntries_abort:
  "walkEntries os fn path before s = (Some err, s1) \<Longrightarrow>
   walkEntries os fn path (before @ after) s = (Some err, s1)"
proof (induction before arbitrary: s)
  case Nil
  then show ?case by simp
next
  case (Cons entry before)
  obtain name d where e: "entry = (name, d)" by (cases entry) auto
  obtain r1 t1 where w1: "walkDir os fn (JoinPath os path name) d s = (r1, t1)"
    by (cases "walkDir os fn (JoinPath os path name) d s") auto
  show ?case
  proof (cases r1)
    case None
    with Cons.prems e w1 have "walkEntries os fn path before t1 = (Some err, s1)"
      by simp
    from Cons.IH [OF this] e w1 None show ?thesis by simp
  next
    case (Some e')
    with Cons.prems e w1 show ?thesis
      by (auto split: if_splits)
  qed
qed

lemma walkFn_file_error:
  assumes "within_root os absPath path" and "shouldIncludeFile os path (includeMap config)"
    and "processFile f path (relative os absPath path)
           (logger LevelDebug ''Processing file'' [(''path'', AString (relative os absPath path))] s)
         = (Some err, s1)"
  shows "walkDir os (walkFn os config absPath) path (File f) s =
         (Some err, logger LevelError ''Failed to process file''
                      [(''path'', AString (relative os absPath path)), (''error'', AError err)] s1)"
  using assms(2,3) Rel_within_root [OF assms(1)]
  by (simp add: walkFn_def)

lemma processFile_unopenable:
  "open_err f = Some e \<Longrightarrow>
   processFile f fullPath relPath s =
     (Some (Wrapped (''failed to open file '' @ fullPath) (PathError e)), s)"
  by (simp add: processFile_def)

lemma processDirectory_walk_error:
  assumes "abs_path w = Inr absPath" and "create_err w = None" and "root w = Inr tree"
    and "writeHeader absPath config
           \<lparr>out = NewWriter (out_room w), fileCount = 0,
            logged = [(LevelDebug, ''Processing directory'', [(''absolutePath'', AString absPath)])]\<rparr>
         = (None, sh)"
    and "walkDir os (walkFn os config absPath) absPath tree sh = (Some err, s1)"
  shows "fst (processDirectory os config w) = Some err"
proof -
  from walk_transcribes(1) [OF refl within_root_self _ assms(5), of "[]"]
  have "err \<noteq> SkipDir" by simp
  with assms show ?thesis
    by (simp add: processDirectory_def Let_def walk_all_def WalkDir_def skipped_def)
qed

lemma main_exit:
  "fst (main os trim fl w) =
     (if fst (processDirectory os (newConfig trim fl) w) = None then 0 else 1)"
  by (cases "processDirectory os (newConfig trim fl) w")
    (simp add: main_def Let_def split: option.splits)

lemma header_written_run:
  "writeHeader ''/r'' (newConfig no_trim example_flags) started = (None, header_written)"
proof -
  have "fst (writeHeader ''/r'' (newConfig no_trim example_flags) started) = None"
    unfolding writeHeader_def
    by (rule write_headers_unlimited) (simp_all add: started_def NewWriter_def)
  then show ?thesis by (simp add: header_written_def prod_eq_iff)
qed

subsection \<open>What a run that fails has written\<close>

lemma write_loop_suffix: "write_loop b p = (b1, p1) \<Longrightarrow> suffix p1 p"
proof (induction b p arbitrary: b1 p1 rule: write_loop.induct)
  case (1 b p)
  show ?case
  proof (cases "length p > Available b \<and> werr b = None")
    case False
    with "1.prems" show ?thesis by (simp add: write_loop_done)
  next
    case loop: True
    show ?thesis
    proof (cases "buf b = []")
      case True
      obtain b2 n e where fw: "file_Write b p = (b2, n, e)"
        by (cases "file_Write b p") auto
      with "1.prems" loop True have "write_loop (b2\<lparr>werr := e\<rparr>) (drop n p) = (b1, p1)"
        by (simp add: write_loop_direct)
      from "1.IH"(1) [OF loop True fw [symmetric] refl this] show ?thesis
        by (meson suffix_drop suffix_order.trans)
    next
      case False
      define b2 where "b2 = b\<lparr>buf := buf b @ take (Available b) p\<rparr>"
      from "1.prems" loop False have "write_loop (fst (Flush b2)) (drop (Available b) p) = (b1, p1)"
        by (simp add: b2_def write_loop_fill)
      from "1.IH"(2) [OF loop False refl b2_def this] show ?thesis
        by (meson suffix_drop suffix_order.trans)
    qed
  qed
qed

lemma partly_written_refl: "out s1 = out s \<Longrightarrow> partly_written str s s1"
  by (auto simp: partly_written_def)

lemma partly_written_all:
  "stream (out s1) = stream (out s) @ str \<Longrightarrow> partly_written str s s1"
  by (auto simp: partly_written_def)

lemma partly_written_more: "partly_written str s s1 \<Longrightarrow> partly_written (str @ beyond) s s1"
  by (auto simp: partly_written_def)

lemma partly_written_then:
  "stream (out s1) = stream (out s) @ str \<Longrightarrow> partly_written beyond s1 s2 \<Longrightarrow>
   partly_written (str @ beyond) s s2"
  by (auto simp: partly_written_def)

lemma partly_written_out: "out s2 = out s1 \<Longrightarrow> partly_written str s s1 \<Longrightarrow> partly_written str s s2"
  by (simp add: partly_written_def)

lemma partly_written_from: "out s0 = out s \<Longrightarrow> partly_written str s0 s1 \<Longrightarrow> partly_written str s s1"
  by (simp add: partly_written_def)

lemma Fprintf_partly: "Fprintf str s = (r, s1) \<Longrightarrow> partly_written str s s1"
proof -
  assume a: "Fprintf str s = (r, s1)"
  obtain b2 p2 where wl: "write_loop (out s) str = (b2, p2)"
    by (cases "write_loop (out s) str") auto
  from write_loop_suffix [OF wl] obtain part where part: "str = part @ p2"
    by (auto simp: suffix_def)
  with write_loop_stream [OF wl] have st: "stream b2 = stream (out s) @ part"
    by simp
  show ?thesis
  proof (cases "werr b2")
    case None
    with a wl have "out s1 = b2\<lparr>buf := buf b2 @ p2\<rparr>"
      by (auto simp: Fprintf_def Write_def)
    with st part have "stream (out s1) = stream (out s) @ str"
      by (simp add: stream_def)
    then show ?thesis by (rule partly_written_all)
  next
    case (Some e)
    with a wl have "out s1 = b2"
      by (auto simp: Fprintf_def Write_def)
    with st part show ?thesis
      by (auto simp: partly_written_def)
  qed
qed

lemma copy_lines_partly:
  "copy_lines sc n s = (r, sc1, n1, s1) \<Longrightarrow>
   partly_written (concat (map (\<lambda>line. line @ [newline]) (fst (scan_all sc)))) s s1"
proof (induction sc n s rule: copy_lines.induct)
  case (1 sc lineCount s)
  obtain tok sc2 where sc: "Scan sc = (tok, sc2)"
    by (cases "Scan sc") auto
  show ?case
  proof (cases tok)
    case None
    with sc "1.prems" have "s1 = s"
      by (simp add: copy_lines.simps [of sc])
    then show ?thesis by (simp add: partly_written_refl)
  next
    case (Some line)
    obtain e s2 where fp: "Fprintf (line @ [newline]) s = (e, s2)"
      by (cases "Fprintf (line @ [newline]) s") auto
    from sc Some have sa: "fst (scan_all sc) = line # fst (scan_all sc2)"
      using scan_all_line [of sc line sc2] by (cases "scan_all sc2") simp
    show ?thesis
    proof (cases e)
      case None
      from sc Some have "(Some line, sc2) = Scan sc" by simp
      from "1.IH" [OF this refl _ refl, of s2] fp None sc Some "1.prems"
      have "partly_written (concat (map (\<lambda>line. line @ [newline]) (fst (scan_all sc2)))) s2 s1"
        by (simp add: copy_lines.simps [of sc])
      with Fprintf_ok(1) [of "line @ [newline]" s s2] fp None
      have "partly_written ((line @ [newline])
          @ concat (map (\<lambda>line. line @ [newline]) (fst (scan_all sc2)))) s s1"
        by (intro partly_written_then) simp_all
      with sa show ?thesis by simp
    next
      case (Some err)
      with sc \<open>tok = Some line\<close> fp "1.prems" have "s1 = s2"
        by (auto simp: copy_lines.simps [of sc])
      with partly_written_more [OF Fprintf_partly [OF fp],
          of "concat (map (\<lambda>line. line @ [newline]) (fst (scan_all sc2)))"]
      have "partly_written ((line @ [newline])
          @ concat (map (\<lambda>line. line @ [newline]) (fst (scan_all sc2)))) s s1"
        by simp
      with sa show ?thesis by simp
    qed
  qed
qed

lemma transcribe_partly:
  assumes "transcribe f fullPath relPath s = (r, s1)"
  shows "partly_written (section_of relPath f) s s1"
proof -
  define t1 where "t1 = (case stat_err f of
                  Some e \<Rightarrow> logger LevelWarn ''Could not get file stats''
                              [(''path'', AString relPath), (''error'', AError (PathError e))] s
                | None \<Rightarrow> logger LevelDebug ''File info''
                              [(''path'', AString relPath), (''size'', AInt (length (bytes f)))] s)"
  have t1: "out t1 = out s"
    by (simp add: t1_def logger_simps split: option.splits)
  define hdr where "hdr = ''## File: '' @ relPath @ [newline]"
  define body where "body = concat (map (\<lambda>line. line @ [newline]) (file_lines f))"
  have sec: "section_of relPath f = hdr @ (fence @ [newline]) @ body @ (fence @ [newline, newline])"
    by (simp add: section_of_def hdr_def body_def)
  obtain r2 t2 where p2: "Fprintf hdr t1 = (r2, t2)"
    by (cases "Fprintf hdr t1") auto
  obtain r3 t3 where p3: "Fprintf (fence @ [newline]) t2 = (r3, t3)"
    by (cases "Fprintf (fence @ [newline]) t2") auto
  obtain r4 sc n4 t4 where p4: "copy_lines (NewScanner f) 0 t3 = (r4, sc, n4, t4)"
    by (cases "copy_lines (NewScanner f) 0 t3") auto
  define t5 where "t5 = logger LevelDebug ''File processed''
                  [(''path'', AString relPath), (''lines'', AInt n4)] t4"
  have t5: "out t5 = out t4"
    by (simp add: t5_def logger_simps)
  obtain r6 t6 where p6: "Fprintf (fence @ [newline, newline]) t5 = (r6, t6)"
    by (cases "Fprintf (fence @ [newline, newline]) t5") auto
  from assms consider
      (a) "r2 \<noteq> None" "s1 = t2"
    | (b) "r2 = None" "r3 \<noteq> None" "s1 = t3"
    | (c) "r2 = None" "r3 = None" "s1 = t4"
    | (d) "r2 = None" "r3 = None" "r4 = None" "s1 = t6"
    unfolding transcribe_def Let_def t1_def [symmetric] hdr_def [symmetric]
    by (auto simp: p2 p3 p4 p6 t5_def [symmetric] split: option.splits)
  then show ?thesis
  proof cases
    case a
    from Fprintf_partly [OF p2] have "partly_written hdr s t2"
      using t1 by (rule partly_written_from [rotated])
    with a sec show ?thesis
      by (simp add: partly_written_more)
  next
    case b
    with p2 t1 have h: "stream (out t2) = stream (out s) @ hdr"
      using Fprintf_ok(1) [of hdr t1 t2] by simp
    from partly_written_more [OF partly_written_then [OF h Fprintf_partly [OF p3]],
        of "body @ fence @ [newline, newline]"] b sec
    show ?thesis by simp
  next
    case c
    with p2 p3 t1 have h: "stream (out t3) = stream (out s) @ hdr @ fence @ [newline]"
      using Fprintf_ok(1) [of hdr t1 t2] Fprintf_ok(1) [of "fence @ [newline]" t2 t3] by simp
    from copy_lines_partly [OF p4] have "partly_written body t3 t4"
      by (simp add: body_def file_lines_def)
    from partly_written_more [OF partly_written_then [OF h this], of "fence @ [newline, newline]"]
      c sec
    show ?thesis by simp
  next
    case d
    with p2 p3 p4 t1 t5 have h: "stream (out t5) = stream (out s) @ hdr @ (fence @ [newline]) @ body"
      using Fprintf_ok(1) [of hdr t1 t2] Fprintf_ok(1) [of "fence @ [newline]" t2 t3]
        copy_lines_ok [of "NewScanner f" 0 t3 sc n4 t4]
      by (simp add: body_def file_lines_def)
    from partly_written_then [OF h Fprintf_partly [OF p6]]
    have "partly_written ((hdr @ (fence @ [newline]) @ body) @ fence @ [newline, newline]) s t6"
      .
    with d sec show ?thesis by simp
  qed
qed

lemma processFile_partly:
  assumes "processFile f fullPath relPath s = (r, s1)"
  shows "partly_written (section_of relPath f) s s1"
proof (cases "open_err f")
  case None
  obtain r2 s2 where t: "transcribe f fullPath relPath s = (r2, s2)"
    by (cases "transcribe f fullPath relPath s") auto
  with assms None have "out s1 = out s2"
    by (auto simp: processFile_def logger_simps split: option.splits)
  from partly_written_out [OF this transcribe_partly [OF t]] show ?thesis .
next
  case (Some e)
  with assms have "s1 = s" by (simp add: processFile_def)
  then show ?thesis by (simp add: partly_written_refl)
qed

lemma write_headers_partly:
  "write_headers hs s = (r, s1) \<Longrightarrow> partly_written (concat hs) s s1"
proof (induction hs arbitrary: s)
  case Nil
  then show ?case by (simp add: partly_written_refl)
next
  case (Cons h hs)
  obtain e s2 where fp: "Fprintf h s = (e, s2)"
    by (cases "Fprintf h s") auto
  show ?case
  proof (cases e)
    case None
    with Cons.prems fp have "write_headers hs s2 = (r, s1)"
      by (simp add: Fprint_Fprintf)
    from partly_written_then [OF _ Cons.IH [OF this], of s h] Fprintf_ok(1) [of h s s2] fp None
    show ?thesis by simp
  next
    case (Some err)
    with Cons.prems fp have "s1 = s2"
      by (auto simp: Fprint_Fprintf)
    with partly_written_more [OF Fprintf_partly [OF fp], of "concat hs"] show ?thesis
      by simp
  qed
qed

lemma sections_append:
  "sections os absPath (xs @ ys) = sections os absPath xs @ sections os absPath ys"
  by (simp add: sections_def)

lemma walkFn_file_partly:
  assumes "within_root os absPath path"
    and "list_all (\<lambda>dir. \<not> excluded os config absPath dir) outer"
    and "walkFn os config absPath path (Some (File f)) None s = (r, s1)"
  shows "partly_written
           (sections os absPath (filter (chosen os config absPath) [(path, outer, f)])) s s1"
proof (cases "shouldIncludeFile os path (includeMap config)")
  case False
  with assms(3) Rel_within_root [OF assms(1)]
  have "s1 = logger LevelDebug ''Skipping file (extension not included)''
                        [(''path'', AString (relative os absPath path))] s"
    by (simp add: walkFn_def)
  then show ?thesis
    by (simp add: partly_written_refl logger_simps)
next
  case True
  note rel = Rel_within_root [OF assms(1)]
  define s0 where "s0 = logger LevelDebug ''Processing file''
      [(''path'', AString (relative os absPath path))] s"
  obtain r2 s2 where pf: "processFile f path (relative os absPath path) s0 = (r2, s2)"
    by (cases "processFile f path (relative os absPath path) s0") auto
  have s0: "out s0 = out s"
    by (simp add: s0_def logger_simps)
  from assms(3) rel True pf have "out s1 = out s2"
    by (cases r2) (auto simp: walkFn_def s0_def logger_simps)
  from partly_written_out [OF this partly_written_from [OF s0 processFile_partly [OF pf]]]
    True assms(2)
  show ?thesis
    by (simp add: chosen_def sections_def)
qed

lemma walk_partly:
  "fn = walkFn os config absPath \<Longrightarrow> within_root os absPath path \<Longrightarrow>
   list_all (\<lambda>dir. \<not> excluded os config absPath dir) outer \<Longrightarrow>
   walkDir os fn path d s = (r, s1) \<Longrightarrow>
   partly_written
     (sections os absPath (filter (chosen os config absPath) (all_files os path outer d))) s s1"
  "fn = walkFn os config absPath \<Longrightarrow> within_root os absPath path \<Longrightarrow>
   list_all (\<lambda>dir. \<not> excluded os config absPath dir) outer \<Longrightarrow>
   walkEntries os fn path entries s = (r, s1) \<Longrightarrow>
   partly_written
     (sections os absPath (filter (chosen os config absPath) (all_entries os path outer entries)))
     s s1"
proof (induction os fn path d s and os fn path entries s arbitrary: outer r s1 and outer r s1
    rule: walkDir_walkEntries.induct)
  case (1 os fn path f s)
  from walkFn_file_partly [OF "1.prems"(2,3), of f s r s1] "1.prems"(1,4) show ?case
    by simp
next
  case (2 os fn path entries s)
  note cb = walkFn_dir [OF "2.prems"(2), of "Dir entries" config s]
  show ?case
  proof (cases "excluded os config absPath path")
    case True
    with "2.prems"(1,4) cb
    have "s1 = logger LevelDebug ''Excluding directory''
                                [(''path'', AString (relative os absPath path))] s"
      by (simp add: skipped_def)
    then show ?thesis
      by (simp add: partly_written_refl logger_simps)
  next
    case False
    with "2.prems"(1) cb have c: "(None, s) = fn path (Some (Dir entries)) None s"
      by simp
    with "2.prems"(4) have w: "walkEntries os fn path entries s = (r, s1)"
      by (auto split: prod.splits option.splits)
    from False "2.prems"(3) have "list_all (\<lambda>dir. \<not> excluded os config absPath dir) (outer @ [path])"
      by simp
    from "2.IH" [OF c refl "2.prems"(1,2) this w] show ?thesis
      by simp
  qed
next
  case (3 os fn path e s)
  note cb = walkFn_dir [OF "3.prems"(2), of "Unlistable e" config s]
  have "out s1 = out s"
  proof (cases "excluded os config absPath path")
    case True
    with "3.prems"(1,4) cb show ?thesis
      by (auto simp: skipped_def logger_simps)
  next
    case False
    with "3.prems"(1,4) cb walkFn_err [of os config absPath path "Some (Unlistable e)" "PathError e" s]
    show ?thesis
      by (auto simp: skipped_def logger_simps)
  qed
  then show ?case
    by (simp add: partly_written_refl)
next
  case (4 os fn path s)
  then show ?case
    by (simp add: partly_written_refl)
next
  case (5 os fn path name d1 dirs s)
  let ?A = "filter (chosen os config absPath) (all_files os (JoinPath os path name) outer d1)"
  let ?B = "filter (chosen os config absPath) (all_entries os path outer dirs)"
  obtain r1 t1 where w1: "walkDir os fn (JoinPath os path name) d1 s = (r1, t1)"
    by (cases "walkDir os fn (JoinPath os path name) d1 s") auto
  note wr = within_root_JoinPath [OF "5.prems"(2)]
  from "5.IH"(1) [OF "5.prems"(1) wr "5.prems"(3) w1]
  have p1: "partly_written (sections os absPath ?A) s t1" .
  from walk_transcribes(1) [OF "5.prems"(1) wr "5.prems"(3) w1]
  have i1: "r1 \<noteq> Some SkipDir" "r1 = None \<Longrightarrow> transcribed os absPath ?A s t1"
    by simp_all
  have "partly_written (sections os absPath ?A @ sections os absPath ?B) s s1"
  proof (cases r1)
    case None
    with w1 "5.prems"(4) have w2: "walkEntries os fn path dirs t1 = (r, s1)"
      by simp
    from w1 None have "(None, t1) = walkDir os fn (JoinPath os path name) d1 s"
      by simp
    from "5.IH"(2) [OF this refl "5.prems"(1,2,3) w2]
    have "partly_written (sections os absPath ?B) t1 s1" .
    moreover from i1(2) [OF None] have "stream (out t1) = stream (out s) @ sections os absPath ?A"
      by (simp add: transcribed_def)
    ultimately show ?thesis
      by (rule partly_written_then [rotated])
  next
    case (Some err)
    with w1 "5.prems"(4) i1(1) have "s1 = t1"
      by (auto split: if_splits)
    with p1 show ?thesis
      by (simp add: partly_written_more)
  qed
  then show ?case
    by (simp add: sections_append)
qed

lemma walk_all_partly:
  assumes "walk_all os config absPath (Inr tree) s = (r, s1)"
  shows "partly_written (complete_output os config absPath tree) s s1"
proof -
  obtain rh sh where h: "writeHeader absPath config s = (rh, sh)"
    by (cases "writeHeader absPath config s") auto
  from h have ph: "partly_written (concat (header_lines absPath config)) s sh"
    by (simp add: writeHeader_def write_headers_partly)
  show ?thesis
  proof (cases rh)
    case (Some err)
    with assms h have "s1 = sh"
      by (simp add: walk_all_def)
    with ph show ?thesis
      by (simp add: complete_output_def partly_written_more)
  next
    case None
    obtain rw sw where wd: "walkDir os (walkFn os config absPath) absPath tree sh = (rw, sw)"
      by (cases "walkDir os (walkFn os config absPath) absPath tree sh") auto
    from walk_partly(1) [OF refl within_root_self _ wd, of "[]"]
    have pw: "partly_written (sections os absPath (selected os config absPath tree)) sh sw"
      by (simp add: selected_def)
    from h None write_headers_ok [of "header_lines absPath config" s sh]
    have hs: "stream (out sh) = stream (out s) @ concat (header_lines absPath config)"
      by (simp add: writeHeader_def)
    from assms h None wd have "out s1 = out sw"
      by (auto simp: walk_all_def WalkDir_def skipped_def logger_simps
          split: option.splits if_splits)
    from partly_written_out [OF this partly_written_then [OF hs pw]] show ?thesis
      by (simp add: complete_output_def)
  qed
qed

lemma processDirectory_partly:
  assumes "abs_path w = Inr absPath" and "root w = Inr tree"
    and "written (snd (processDirectory os config w)) = Some txt"
  shows "prefix txt (complete_output os config absPath tree)"
proof -
  let ?s0 = "\<lparr>out = NewWriter (out_room w), fileCount = 0,
      logged = [(LevelDebug, ''Processing directory'', [(''absolutePath'', AString absPath)])]\<rparr>"
  from assms(1,3) have c: "create_err w = None"
    by (auto simp: processDirectory_def Let_def split: option.splits)
  obtain r s where wa: "walk_all os config absPath (Inr tree) ?s0 = (r, s)"
    by (cases "walk_all os config absPath (Inr tree) ?s0") auto
  with assms c have "written (deferred w s) = Some txt"
    by (simp add: processDirectory_def Let_def)
  then have fl: "txt = flushed (fst (Flush (out s)))"
    by (cases "Flush (out s)") (auto simp: deferred_def Let_def)
  from walk_all_partly [OF wa] obtain sofar
    where "prefix sofar (complete_output os config absPath tree)" "stream (out s) = sofar"
    by (auto simp: partly_written_def NewWriter_def stream_def)
  with Flush_prefix [of "out s"] fl show ?thesis
    by auto
qed

subsection \<open>The example runs\<close>




subsection \<open>The output file in the tree\<close>

lemma create_store:
  "create_in names tree = Inr tree1 \<Longrightarrow> create_in names (store_in names content tree1) = Inr tree1"
  "create_entry name names entries = Inr entries1 \<Longrightarrow>
   create_entry name names (store_entry name names content entries1) = Inr entries1"
proof (induction names tree and name names entries arbitrary: tree1 and entries1
    rule: create_in_create_entry.induct)
qed (auto split: sum.splits if_splits simp: new_file_def)

lemma create_again:
  "create_in names tree = Inr tree1 \<Longrightarrow> create_in names tree1 = Inr tree1"
  "create_entry name names entries = Inr entries1 \<Longrightarrow>
   create_entry name names entries1 = Inr entries1"
proof (induction names tree and name names entries arbitrary: tree1 and entries1
    rule: create_in_create_entry.induct)
qed (auto split: sum.splits if_splits simp: new_file_def)

lemma Create_stored:
  assumes "Create w place = Inr w1"
  shows "Create (stored place content w1) place = Inr w1"
proof (cases place)
  case None
  with assms show ?thesis
    by (auto simp: Create_def stored_def split: option.splits)
next
  case (Some names)
  with assms obtain tree tree1 where c: "create_err w = None" "root w = Inr tree"
    "create_in names tree = Inr tree1" "w1 = w\<lparr>root := Inr tree1\<rparr>"
    by (auto simp: Create_def split: option.splits sum.splits)
  show ?thesis
  proof (cases content)
    case None
    with c Some create_again(1) [OF c(3)] show ?thesis
      by (simp add: Create_def stored_def)
  next
    case (Some str)
    with c \<open>place = Some names\<close> create_store(1) [OF c(3), of str] show ?thesis
      by (simp add: Create_def stored_def)
  qed
qed

lemma stored_answers:
  "abs_path (stored place content w) = abs_path w"
  "create_err (stored place content w) = create_err w"
  "out_room (stored place content w) = out_room w"
  "out_close_err (stored place content w) = out_close_err w"
  by (simp_all add: stored_def split: option.splits sum.splits)

lemma Create_answers:
  assumes "Create w place = Inr w1"
  shows "abs_path w1 = abs_path w" "create_err w1 = None" "create_err w = None"
    "out_room w1 = out_room w" "out_close_err w1 = out_close_err w"
  using assms by (auto simp: Create_def split: option.splits sum.splits)

lemma deferred_answers:
  "out_close_err w1 = out_close_err w \<Longrightarrow> deferred w1 s = deferred w s"
  by (simp add: deferred_def)

lemma processDirectory_live_again:
  assumes "processDirectory_live os config w place = Some (result, res, w1)"
  shows "processDirectory_live os config w1 place = Some (result, res, w1)"
proof (cases "abs_path w")
  case (Inl e)
  with assms show ?thesis
    by (auto simp: processDirectory_live_def)
next
  case (Inr absPath)
  show ?thesis
  proof (cases "Create w place")
    case (Inl e)
    with assms Inr show ?thesis
      by (auto simp: processDirectory_live_def)
  next
    case created: (Inr w2)
    define s0 where "s0 = \<lparr>out = NewWriter (out_room w2), fileCount = 0,
      logged = [(LevelDebug, ''Processing directory'', [(''absolutePath'', AString absPath)])]\<rparr>"
    from assms Inr created obtain s where
      wa: "walk_all_live os config absPath (map_option (path_of os absPath) place) (root w2) s0
             = Some (result, s)"
      and res: "res = deferred w2 s" and w1: "w1 = stored place (written res) w2"
      by (auto simp: processDirectory_live_def Let_def s0_def split: option.splits)
    from w1 Create_stored [OF created] have c: "Create w1 place = Inr w2"
      by simp
    from w1 Inr Create_answers(1) [OF created] have a: "abs_path w1 = Inr absPath"
      by (simp add: stored_answers)
    from a c wa res w1 show ?thesis
      by (simp add: processDirectory_live_def Let_def s0_def)
  qed
qed

subsection \<open>A walk that does not read the output file\<close>

lemma walkFn_live_plain:
  assumes "\<And>p. self = Some p \<Longrightarrow> \<not> shouldIncludeFile os p (includeMap config)"
  shows "walkFn_live os config absPath self path d err (Some s) =
         (case walkFn os config absPath path d err s of (e, s1) \<Rightarrow> (e, Some s1))"
proof (cases "self = Some path")
  case True
  with assms have "\<not> shouldIncludeFile os path (includeMap config)"
    by simp
  then show ?thesis
    by (simp add: walkFn_live_def walkFn_def split: option.splits sum.splits node.splits)
next
  case False
  then show ?thesis
    by (simp add: walkFn_live_def walkFn_def processFile_at_def
        split: option.splits sum.splits node.splits prod.splits)
qed

lemma walk_lifted:
  "(\<And>path d err s. gn path d err (Some s) = (case fn path d err s of (e, s1) \<Rightarrow> (e, Some s1))) \<Longrightarrow>
   walkDir os gn path d (Some s) = (case walkDir os fn path d s of (e, s1) \<Rightarrow> (e, Some s1))"
  "(\<And>path d err s. gn path d err (Some s) = (case fn path d err s of (e, s1) \<Rightarrow> (e, Some s1))) \<Longrightarrow>
   walkEntries os gn path entries (Some s) =
     (case walkEntries os fn path entries s of (e, s1) \<Rightarrow> (e, Some s1))"
proof (induction os fn path d s and os fn path entries s rule: walkDir_walkEntries.induct)
  case (1 os fn path f s)
  then show ?case by simp
next
  case (2 os fn path entries s)
  obtain r s1 where c: "fn path (Some (Dir entries)) None s = (r, s1)"
    by (cases "fn path (Some (Dir entries)) None s") auto
  show ?case
  proof (cases r)
    case None
    with c have "(None, s1) = fn path (Some (Dir entries)) None s" by simp
    from "2.IH" [OF this refl "2.prems"] c None "2.prems" show ?thesis
      by simp
  next
    case (Some e)
    with c "2.prems" show ?thesis
      by (simp add: skipped_def)
  qed
next
  case (3 os fn path e s)
  then show ?case
    by (auto simp: skipped_def split: prod.splits option.splits)
next
  case (4 os fn path s)
  then show ?case by simp
next
  case (5 os fn path name d1 dirs s)
  obtain r s1 where w: "walkDir os fn (JoinPath os path name) d1 s = (r, s1)"
    by (cases "walkDir os fn (JoinPath os path name) d1 s") auto
  show ?case
  proof (cases r)
    case None
    with w have "(None, s1) = walkDir os fn (JoinPath os path name) d1 s" by simp
    from "5.IH"(2) [OF this refl "5.prems"] "5.IH"(1) [OF "5.prems"] w None show ?thesis
      by simp
  next
    case (Some e)
    with "5.IH"(1) [OF "5.prems"] w show ?thesis
      by simp
  qed
qed

lemma walk_all_live_plain:
  assumes "\<And>p. self = Some p \<Longrightarrow> \<not> shouldIncludeFile os p (includeMap config)"
  shows "walk_all_live os config absPath self lstat s = Some (walk_all os config absPath lstat s)"
proof -
  have cb: "walkFn_live os config absPath self path d err (Some s) =
         (case walkFn os config absPath path d err s of (e, s1) \<Rightarrow> (e, Some s1))" for path d err s
    using assms by (rule walkFn_live_plain)
  have "WalkDir os (walkFn_live os config absPath self) absPath lstat (Some s1) =
        (case WalkDir os (walkFn os config absPath) absPath lstat s1 of (e, s2) \<Rightarrow> (e, Some s2))"
    for s1
    using walk_lifted(1) [of "walkFn_live os config absPath self" "walkFn os config absPath", OF cb]
    by (cases lstat) (auto simp: WalkDir_def skipped_def cb split: prod.splits)
  then show ?thesis
    by (auto simp: walk_all_live_def walk_all_def split: prod.splits option.splits)
qed

lemma processDirectory_live_plain:
  assumes "abs_path w = Inr absPath"
    and "\<And>names. place = Some names \<Longrightarrow>
             \<not> shouldIncludeFile os (path_of os absPath names) (includeMap config)"
    and "Create w place = Inr w1"
  shows "processDirectory_live os config w place =
         Some (fst (processDirectory os config w1), snd (processDirectory os config w1),
               stored place (written (snd (processDirectory os config w1))) w1)"
proof -
  have "\<And>p. map_option (path_of os absPath) place = Some p \<Longrightarrow>
             \<not> shouldIncludeFile os p (includeMap config)"
    using assms(2) by auto
  from walk_all_live_plain [of "map_option (path_of os absPath) place" os config, OF this]
    assms(1) Create_answers [OF assms(3)] assms(3)
  show ?thesis
    by (simp add: processDirectory_live_def processDirectory_def Let_def split: prod.splits)
qed

lemma processDirectory_live_outside:
  "processDirectory_live os config w None =
   Some (fst (processDirectory os config w), snd (processDirectory os config w), w)"
proof (cases "abs_path w")
  case (Inl e)
  then show ?thesis
    by (simp add: processDirectory_live_def processDirectory_def)
next
  case (Inr absPath)
  show ?thesis
  proof (cases "create_err w")
    case None
    then have "Create w None = Inr w"
      by (simp add: Create_def)
    from processDirectory_live_plain [OF Inr _ this, of os config] show ?thesis
      by (simp add: stored_def)
  next
    case (Some e)
    with Inr show ?thesis
      by (simp add: processDirectory_live_def processDirectory_def Create_def)
  qed
qed

subsection \<open>A finite output file\<close>

lemma file_Write_bound:
  "file_Write b p = (b1, n, e) \<Longrightarrow> room b = Some l \<Longrightarrow>
   max l (length (flushed b1)) = max l (length (flushed b))"
  by (auto simp: file_Write_def Let_def)

lemma Flush_bound:
  "Flush b = (b1, e) \<Longrightarrow> room b = Some l \<Longrightarrow>
   max l (length (flushed b1)) = max l (length (flushed b))"
  by (auto simp: Flush_def file_Write_def Let_def split: option.splits if_splits prod.splits)

lemma Flush_emptied: "werr (fst (Flush b)) = None \<Longrightarrow> buf (fst (Flush b)) = []"
  by (auto simp: Flush_def file_Write_def Let_def split: option.splits if_splits prod.splits)

lemma write_loop_bound:
  "write_loop b p = (b1, p1) \<Longrightarrow> room b = Some l \<Longrightarrow>
   max l (length (flushed b1)) = max l (length (flushed b)) \<and>
   \<not> (length p1 > Available b1 \<and> werr b1 = None) \<and>
   (werr b1 = None \<longrightarrow> b1 = b \<and> p1 = p \<or> buf b1 = [])"
proof (induction b p arbitrary: b1 p1 rule: write_loop.induct)
  case (1 b p)
  show ?case
  proof (cases "length p > Available b \<and> werr b = None")
    case False
    with "1.prems" show ?thesis by (auto simp: write_loop_done)
  next
    case loop: True
    show ?thesis
    proof (cases "buf b = []")
      case True
      obtain b2 n e where fw: "file_Write b p = (b2, n, e)"
        by (cases "file_Write b p") auto
      with "1.prems" loop True have wl: "write_loop (b2\<lparr>werr := e\<rparr>) (drop n p) = (b1, p1)"
        by (simp add: write_loop_direct)
      from file_Write_facts [OF fw] "1.prems"(2) have r: "room (b2\<lparr>werr := e\<rparr>) = Some l"
        by simp
      from "1.IH"(1) [OF loop True fw [symmetric] refl wl r]
        file_Write_bound [OF fw "1.prems"(2)] file_Write_facts(2) [OF fw] True
      show ?thesis
        by auto
    next
      case False
      define b2 where "b2 = b\<lparr>buf := buf b @ take (Available b) p\<rparr>"
      from "1.prems" loop False have wl: "write_loop (fst (Flush b2)) (drop (Available b) p) = (b1, p1)"
        by (simp add: b2_def write_loop_fill)
      have r: "room (fst (Flush b2)) = Some l"
        using Flush_stream [of b2] "1.prems"(2) by (cases "Flush b2") (auto simp: b2_def)
      have fb: "max l (length (flushed (fst (Flush b2)))) = max l (length (flushed b))"
        using Flush_bound [of b2 _ _ l] "1.prems"(2) by (cases "Flush b2") (auto simp: b2_def)
      from "1.IH"(2) [OF loop False refl b2_def wl r] fb Flush_emptied [of b2]
      show ?thesis
        by auto
    qed
  qed
qed

lemma Write_bound:
  assumes "Write b p = (b1, None)" and "room b = Some l" and "p \<noteq> []"
  shows "length (stream b1) \<le> max l (length (flushed b)) + defaultBufSize"
    and "max l (length (flushed b1)) = max l (length (flushed b))"
proof -
  obtain b2 p2 where wl: "write_loop b p = (b2, p2)"
    by (cases "write_loop b p") auto
  with assms(1) have w: "werr b2 = None" "b1 = b2\<lparr>buf := buf b2 @ p2\<rparr>"
    by (auto simp: Write_def split: option.splits)
  from write_loop_bound [OF wl assms(2)] w(1)
  have m: "max l (length (flushed b2)) = max l (length (flushed b))"
    and a: "length p2 \<le> Available b2" and c: "b2 = b \<and> p2 = p \<or> buf b2 = []"
    by auto
  have "length (buf b2) + length p2 \<le> defaultBufSize"
  proof (cases "buf b2 = []")
    case True
    with a show ?thesis by (simp add: Available_def)
  next
    case False
    with c have "p2 \<noteq> []" using assms(3) by simp
    then have "0 < length p2" by simp
    with a show ?thesis unfolding Available_def by arith
  qed
  then have "length (buf b2 @ p2) \<le> defaultBufSize"
    by simp
  with m w(2) show "length (stream b1) \<le> max l (length (flushed b)) + defaultBufSize"
    by (auto simp: stream_def)
  from m w(2) show "max l (length (flushed b1)) = max l (length (flushed b))"
    by simp
qed

lemma Fprintf_bound:
  assumes "Fprintf str s = (None, s1)" and "room (out s) = Some l" and "str \<noteq> []"
  shows "max l (length (flushed (out s1))) + defaultBufSize - length (stream (out s1))
         < max l (length (flushed (out s))) + defaultBufSize - length (stream (out s))"
proof -
  obtain b e where w: "Write (out s) str = (b, e)"
    by (cases "Write (out s) str") auto
  with assms(1) have e: "e = None" "s1 = s\<lparr>out := b\<rparr>"
    by (auto simp: Fprintf_def)
  from Write_bound [OF w [unfolded e(1)] assms(2,3)] Write_ok(1) [OF w [unfolded e(1)]] e(2) assms(3)
  show ?thesis
    by (cases str) auto
qed

lemma copy_lines_live_returns:
  "room (out s) = Some l \<Longrightarrow>
   \<exists>r t1 n1 s1. copy_lines_live f t n s = Some (r, t1, n1, s1) \<and>
     room (out s1) = Some l \<and> fileCount s1 = fileCount s"
proof (induction "max l (length (flushed (out s))) + defaultBufSize - length (stream (out s))"
    arbitrary: t n s rule: less_induct)
  case less
  obtain tok t2 where sc: "Scan_live f (flushed (out s)) t = (tok, t2)"
    by (cases "Scan_live f (flushed (out s)) t") auto
  show ?case
  proof (cases tok)
    case None
    with sc less.prems show ?thesis
      by (subst copy_lines_live.simps) simp
  next
    case (Some line)
    obtain e s2 where fp: "Fprintf (line @ [newline]) s = (e, s2)"
      by (cases "Fprintf (line @ [newline]) s") auto
    show ?thesis
    proof (cases e)
      case None
      from Fprintf_bound [OF fp [unfolded None] less.prems] Fprintf_ok(2,5) [OF fp [unfolded None]]
        less.prems
      have "max l (length (flushed (out s2))) + defaultBufSize - length (stream (out s2))
            < max l (length (flushed (out s))) + defaultBufSize - length (stream (out s))"
        and r: "room (out s2) = Some l" and c: "fileCount s2 = fileCount s"
        by simp_all
      from less.hyps [OF this(1) r, of t2 "Suc n"] sc Some fp None c show ?thesis
        by (subst copy_lines_live.simps) simp
    next
      case (Some err)
      with sc \<open>tok = Some line\<close> fp Fprintf_frame [OF fp] less.prems show ?thesis
        by (subst copy_lines_live.simps) simp
    qed
  qed
qed

lemma transcribe_live_returns:
  assumes "room (out s) = Some l"
  shows "\<exists>r s1. transcribe_live f fullPath relPath s = Some (r, s1) \<and>
           room (out s1) = Some l \<and> fileCount s1 = fileCount s"
proof -
  define t1 where "t1 = (case stat_err f of
      Some e \<Rightarrow> logger LevelWarn ''Could not get file stats''
                  [(''path'', AString relPath), (''error'', AError (PathError e))] s
    | None \<Rightarrow> logger LevelDebug ''File info''
                  [(''path'', AString relPath), (''size'', AInt (length (flushed (out s))))] s)"
  have t1: "room (out t1) = Some l" "fileCount t1 = fileCount s"
    using assms by (auto simp: t1_def logger_simps split: option.splits)
  obtain e2 s2 where p2: "Fprintf (''## File: '' @ relPath @ [newline]) t1 = (e2, s2)"
    by (cases "Fprintf (''## File: '' @ relPath @ [newline]) t1") auto
  obtain e3 s3 where p3: "Fprintf (fence @ [newline]) s2 = (e3, s3)"
    by (cases "Fprintf (fence @ [newline]) s2") auto
  from Fprintf_frame [OF p2] Fprintf_frame [OF p3] t1
  have s3: "room (out s3) = Some l" "fileCount s3 = fileCount s"
    "room (out s2) = Some l" "fileCount s2 = fileCount s"
    by simp_all
  from copy_lines_live_returns [OF s3(1), of f NewScanner_live 0] s3(2)
  obtain e4 t4 n4 s4 where p4: "copy_lines_live f NewScanner_live 0 s3 = Some (e4, t4, n4, s4)"
    and s4: "room (out s4) = Some l" "fileCount s4 = fileCount s"
    by auto
  define t5 where "t5 = logger LevelDebug ''File processed''
      [(''path'', AString relPath), (''lines'', AInt n4)] s4"
  obtain e6 s6 where p6: "Fprintf (fence @ [newline, newline]) t5 = (e6, s6)"
    by (cases "Fprintf (fence @ [newline, newline]) t5") auto
  from Fprintf_frame [OF p6] s4 have s6: "room (out s6) = Some l" "fileCount s6 = fileCount s"
    by (simp_all add: t5_def logger_simps)
  from p2 p3 p4 p6 s3 s4 s6 show ?thesis
    unfolding transcribe_live_def t1_def [symmetric] Let_def
    by (auto simp: t5_def [symmetric] split: option.splits)
qed

lemma processFile_at_returns:
  assumes "room (out s) = Some l"
  shows "\<exists>r s1. processFile_at self f fullPath relPath s = Some (r, s1) \<and>
           room (out s1) = Some l \<and> fileCount s1 = fileCount s"
proof (cases "self = Some fullPath")
  case True
  from transcribe_live_returns [OF assms, of f fullPath relPath] True assms show ?thesis
    by (auto simp: processFile_at_def processFile_live_def logger_simps split: option.splits)
next
  case False
  obtain r s1 where pf: "processFile f fullPath relPath s = (r, s1)"
    by (cases "processFile f fullPath relPath s") auto
  with processFile_frame [OF pf] False assms show ?thesis
    by (simp add: processFile_at_def)
qed

lemma walkFn_live_returns:
  assumes "room (out s) = Some l"
  shows "\<exists>r s1. walkFn_live os config absPath self path d err (Some s) = (r, Some s1) \<and>
           room (out s1) = Some l"
proof (cases "\<exists>f relPath. err = None \<and> Rel os absPath path = Inr relPath \<and> d = Some (File f) \<and>
    shouldIncludeFile os path (includeMap config)")
  case True
  then obtain f relPath where c: "err = None" "Rel os absPath path = Inr relPath"
    "d = Some (File f)" "shouldIncludeFile os path (includeMap config)"
    by auto
  define s0 where "s0 = logger LevelDebug ''Processing file'' [(''path'', AString relPath)] s"
  from assms have "room (out s0) = Some l"
    by (simp add: s0_def logger_simps)
  from processFile_at_returns [OF this, of self f path relPath]
  obtain r s1 where "processFile_at self f path relPath s0 = Some (r, s1)" "room (out s1) = Some l"
    by auto
  with c show ?thesis
    by (cases r) (simp_all add: walkFn_live_def s0_def [symmetric] logger_simps)
next
  case False
  with assms show ?thesis
    by (auto simp: walkFn_live_def logger_simps split: option.splits sum.splits node.splits)
qed

lemma walk_live_returns:
  "fn = walkFn_live os config absPath self \<Longrightarrow> state = Some s \<Longrightarrow> room (out s) = Some l \<Longrightarrow>
   \<exists>r s1. walkDir os fn path d state = (r, Some s1) \<and> room (out s1) = Some l"
  "fn = walkFn_live os config absPath self \<Longrightarrow> state = Some s \<Longrightarrow> room (out s) = Some l \<Longrightarrow>
   \<exists>r s1. walkEntries os fn path entries state = (r, Some s1) \<and> room (out s1) = Some l"
proof (induction os fn path d state and os fn path entries state arbitrary: s and s
    rule: walkDir_walkEntries.induct)
  case (1 os fn path f state)
  with walkFn_live_returns [OF "1.prems"(3), of os config absPath self path "Some (File f)" None]
  show ?case by simp
next
  case (2 os fn path entries state)
  from walkFn_live_returns [OF "2.prems"(3), of os config absPath self path "Some (Dir entries)" None]
  obtain r s1 where c: "fn path (Some (Dir entries)) None state = (r, Some s1)"
    and r1: "room (out s1) = Some l"
    using "2.prems"(1,2) by auto
  show ?case
  proof (cases r)
    case None
    with c have "(None, Some s1) = fn path (Some (Dir entries)) None state" by simp
    from "2.IH" [OF this refl "2.prems"(1) refl r1] c None show ?thesis
      by simp
  next
    case (Some e)
    with c r1 show ?thesis
      by (simp add: skipped_def)
  qed
next
  case (3 os fn path e state)
  from walkFn_live_returns [OF "3.prems"(3), of os config absPath self path "Some (Unlistable e)" None]
  obtain r s1 where c: "fn path (Some (Unlistable e)) None state = (r, Some s1)"
    and r1: "room (out s1) = Some l"
    using "3.prems"(1,2) by auto
  from walkFn_live_returns [OF r1, of os config absPath self path "Some (Unlistable e)"
      "Some (PathError e)"]
  obtain r2 s2 where c2: "fn path (Some (Unlistable e)) (Some (PathError e)) (Some s1) = (r2, Some s2)"
    and r2: "room (out s2) = Some l"
    using "3.prems"(1) by auto
  from c r1 c2 r2 show ?case
    by (cases r; cases r2) (simp_all add: skipped_def)
next
  case (4 os fn path state)
  then show ?case by simp
next
  case (5 os fn path name d1 dirs state)
  from "5.IH"(1) [OF "5.prems"]
  obtain r s1 where w: "walkDir os fn (JoinPath os path name) d1 state = (r, Some s1)"
    and r1: "room (out s1) = Some l"
    by auto
  show ?case
  proof (cases r)
    case None
    with w have "(None, Some s1) = walkDir os fn (JoinPath os path name) d1 state" by simp
    from "5.IH"(2) [OF this refl "5.prems"(1) refl r1] w None show ?thesis
      by simp
  next
    case (Some e)
    with w r1 show ?thesis
      by simp
  qed
qed

lemma walk_all_live_returns:
  assumes "room (out s) = Some l"
  shows "\<exists>r. walk_all_live os config absPath self lstat s = Some r"
proof -
  obtain e s1 where h: "writeHeader absPath config s = (e, s1)"
    by (cases "writeHeader absPath config s") auto
  from write_headers_frame [of "header_lines absPath config" s e s1] h assms
  have r1: "room (out s1) = Some l"
    by (simp add: writeHeader_def)
  have "\<exists>r s2. WalkDir os (walkFn_live os config absPath self) absPath lstat (Some s1) = (r, Some s2)"
  proof (cases lstat)
    case (Inl e)
    from walkFn_live_returns [OF r1, of os config absPath self absPath None "Some (PathError e)"]
    obtain r s2 where "walkFn_live os config absPath self absPath None (Some (PathError e)) (Some s1)
      = (r, Some s2)" by auto
    with Inl show ?thesis
      by (simp add: WalkDir_def skipped_def)
  next
    case (Inr d)
    from walk_live_returns(1) [OF refl refl r1, of os config absPath self absPath d]
    obtain r s2 where "walkDir os (walkFn_live os config absPath self) absPath d (Some s1)
      = (r, Some s2)" by auto
    with Inr show ?thesis
      by (simp add: WalkDir_def skipped_def)
  qed
  then obtain r s2 where
    "WalkDir os (walkFn_live os config absPath self) absPath lstat (Some s1) = (r, Some s2)"
    by auto
  with h show ?thesis
    by (cases e; cases r) (simp_all add: walk_all_live_def)
qed

lemma processDirectory_live_returns:
  assumes "out_room w = Some l"
  shows "\<exists>r. processDirectory_live os config w place = Some r"
proof (cases "abs_path w")
  case (Inl e)
  then show ?thesis
    by (simp add: processDirectory_live_def)
next
  case (Inr absPath)
  show ?thesis
  proof (cases "Create w place")
    case (Inl e)
    with Inr show ?thesis
      by (simp add: processDirectory_live_def)
  next
    case created: (Inr w1)
    define s0 where "s0 = \<lparr>out = NewWriter (out_room w1), fileCount = 0,
      logged = [(LevelDebug, ''Processing directory'', [(''absolutePath'', AString absPath)])]\<rparr>"
    from Create_answers(4) [OF created] assms have "room (out s0) = Some l"
      by (simp add: s0_def NewWriter_def)
    from walk_all_live_returns [OF this, of os config absPath
        "map_option (path_of os absPath) place" "root w1"]
    obtain r where "walk_all_live os config absPath (map_option (path_of os absPath) place)
      (root w1) s0 = Some r" by auto
    with Inr created show ?thesis
      by (cases r) (simp add: processDirectory_live_def Let_def s0_def [symmetric])
  qed
qed

subsection \<open>An output that fits the buffer\<close>

lemma Write_buffered:
  assumes "Write b p = (b1, e)" and "buffered b"
  shows "buffered b1"
proof (cases e)
  case (Some err)
  with assms(1) have "werr b1 \<noteq> None"
    by (cases "write_loop b p") (auto simp: Write_def split: option.splits)
  then show ?thesis
    by (auto simp: buffered_def)
next
  case None
  with assms(1) have w: "Write b p = (b1, None)" by simp
  have e: "werr b = None"
  proof (rule ccontr)
    assume "werr b \<noteq> None"
    then have "write_loop b p = (b, p)" by (simp add: write_loop_done)
    with \<open>werr b \<noteq> None\<close> w show False
      by (auto simp: Write_def split: option.splits)
  qed
  show ?thesis
    unfolding buffered_def
  proof
    assume a: "werr b1 = None \<and> length (stream b1) \<le> defaultBufSize"
    with Write_ok(1) [OF w] have l: "length (stream b) + length p \<le> defaultBufSize"
      by simp
    with e assms(2) have f: "flushed b = []"
      by (simp add: buffered_def)
    with l have "length p \<le> Available b"
      by (simp add: stream_def Available_def)
    from Write_small [OF e this] w f show "flushed b1 = []"
      by auto
  qed
qed

lemma Fprintf_buffered:
  assumes "Fprintf str s = (e, s1)" and "buffered (out s)"
  shows "buffered (out s1)"
proof -
  obtain b r where w: "Write (out s) str = (b, r)"
    by (cases "Write (out s) str") auto
  with assms(1) have "out s1 = b"
    by (auto simp: Fprintf_def)
  with Write_buffered [OF w assms(2)] show ?thesis
    by simp
qed

lemma copy_lines_buffered:
  "copy_lines sc n s = (r, sc1, n1, s1) \<Longrightarrow> buffered (out s) \<Longrightarrow> buffered (out s1)"
proof (induction sc n s rule: copy_lines.induct)
  case (1 sc lineCount s)
  obtain tok sc2 where sc: "Scan sc = (tok, sc2)"
    by (cases "Scan sc") auto
  show ?case
  proof (cases tok)
    case None
    with sc "1.prems" show ?thesis
      by (simp add: copy_lines.simps [of sc])
  next
    case (Some line)
    obtain e s2 where fp: "Fprintf (line @ [newline]) s = (e, s2)"
      by (cases "Fprintf (line @ [newline]) s") auto
    note b2 = Fprintf_buffered [OF fp "1.prems"(2)]
    show ?thesis
    proof (cases e)
      case None
      from sc Some have "(Some line, sc2) = Scan sc" by simp
      from "1.IH" [OF this refl _ refl, of s2] fp None sc Some "1.prems" b2 show ?thesis
        by (simp add: copy_lines.simps [of sc])
    next
      case (Some err)
      with sc \<open>tok = Some line\<close> fp "1.prems" b2 show ?thesis
        by (auto simp: copy_lines.simps [of sc])
    qed
  qed
qed

lemma transcribe_buffered:
  assumes "transcribe f fullPath relPath s = (r, s1)" and "buffered (out s)"
  shows "buffered (out s1)"
proof -
  define t1 where "t1 = (case stat_err f of
                  Some e \<Rightarrow> logger LevelWarn ''Could not get file stats''
                              [(''path'', AString relPath), (''error'', AError (PathError e))] s
                | None \<Rightarrow> logger LevelDebug ''File info''
                              [(''path'', AString relPath), (''size'', AInt (length (bytes f)))] s)"
  have t1: "out t1 = out s"
    by (simp add: t1_def logger_simps split: option.splits)
  define hdr where "hdr = ''## File: '' @ relPath @ [newline]"
  obtain r2 t2 where p2: "Fprintf hdr t1 = (r2, t2)"
    by (cases "Fprintf hdr t1") auto
  obtain r3 t3 where p3: "Fprintf (fence @ [newline]) t2 = (r3, t3)"
    by (cases "Fprintf (fence @ [newline]) t2") auto
  obtain r4 sc n4 t4 where p4: "copy_lines (NewScanner f) 0 t3 = (r4, sc, n4, t4)"
    by (cases "copy_lines (NewScanner f) 0 t3") auto
  define t5 where "t5 = logger LevelDebug ''File processed''
                  [(''path'', AString relPath), (''lines'', AInt n4)] t4"
  obtain r6 t6 where p6: "Fprintf (fence @ [newline, newline]) t5 = (r6, t6)"
    by (cases "Fprintf (fence @ [newline, newline]) t5") auto
  have t5: "out t5 = out t4"
    by (simp add: t5_def logger_simps)
  from assms(1) have m: "s1 \<in> {t2, t3, t4, t6}"
    unfolding transcribe_def Let_def t1_def [symmetric] hdr_def [symmetric]
    by (simp add: p2 p3 p4 p6 t5_def [symmetric] split: option.splits)
  from assms(2) t1 have "buffered (out t1)" by simp
  note b2 = Fprintf_buffered [OF p2 this]
  note b3 = Fprintf_buffered [OF p3 b2]
  note b4 = copy_lines_buffered [OF p4 b3]
  from b4 t5 have "buffered (out t5)" by simp
  note b6 = Fprintf_buffered [OF p6 this]
  from m b2 b3 b4 b6 show ?thesis by auto
qed

lemma processFile_buffered:
  assumes "processFile f fullPath relPath s = (r, s1)" and "buffered (out s)"
  shows "buffered (out s1)"
proof (cases "open_err f")
  case None
  obtain r2 s2 where t: "transcribe f fullPath relPath s = (r2, s2)"
    by (cases "transcribe f fullPath relPath s") auto
  with assms None transcribe_buffered [OF t assms(2)] show ?thesis
    by (auto simp: processFile_def logger_simps split: option.splits)
next
  case (Some e)
  with assms show ?thesis
    by (simp add: processFile_def)
qed

lemma walkFn_buffered:
  assumes "walkFn os config absPath path d err s = (r, s1)" and "buffered (out s)"
  shows "buffered (out s1)"
proof (cases "\<exists>f relPath. err = None \<and> Rel os absPath path = Inr relPath \<and> d = Some (File f) \<and>
    shouldIncludeFile os path (includeMap config)")
  case True
  then obtain f relPath where c: "err = None" "Rel os absPath path = Inr relPath"
    "d = Some (File f)" "shouldIncludeFile os path (includeMap config)"
    by auto
  define s0 where "s0 = logger LevelDebug ''Processing file'' [(''path'', AString relPath)] s"
  obtain r2 s2 where pf: "processFile f path relPath s0 = (r2, s2)"
    by (cases "processFile f path relPath s0") auto
  from assms(2) have "buffered (out s0)"
    by (simp add: s0_def logger_simps)
  from processFile_buffered [OF pf this] assms(1) c pf show ?thesis
    by (cases r2) (auto simp: walkFn_def s0_def [symmetric] logger_simps)
next
  case False
  with assms show ?thesis
    by (auto simp: walkFn_def logger_simps split: option.splits sum.splits node.splits if_splits)
qed

lemma write_headers_buffered:
  "write_headers hs s = (r, s1) \<Longrightarrow> buffered (out s) \<Longrightarrow> buffered (out s1)"
proof (induction hs arbitrary: s)
  case Nil
  then show ?case by simp
next
  case (Cons h hs)
  obtain e s2 where fp: "Fprintf h s = (e, s2)"
    by (cases "Fprintf h s") auto
  note b2 = Fprintf_buffered [OF fp Cons.prems(2)]
  show ?case
  proof (cases e)
    case None
    with Cons.prems fp have "write_headers hs s2 = (r, s1)"
      by (simp add: Fprint_Fprintf)
    from Cons.IH [OF this b2] show ?thesis .
  next
    case (Some err)
    with Cons.prems fp b2 show ?thesis
      by (auto simp: Fprint_Fprintf)
  qed
qed

lemma transcribe_live_small:
  assumes "transcribe f fullPath relPath s = (None, s1)" and "bytes f = []"
    and "buffered (out s)" and "length (stream (out s1)) \<le> defaultBufSize"
  shows "transcribe_live f fullPath relPath s = Some (None, s1)"
proof -
  define t1 where "t1 = (case stat_err f of
                  Some e \<Rightarrow> logger LevelWarn ''Could not get file stats''
                              [(''path'', AString relPath), (''error'', AError (PathError e))] s
                | None \<Rightarrow> logger LevelDebug ''File info''
                              [(''path'', AString relPath), (''size'', AInt (length (bytes f)))] s)"
  have t1: "out t1 = out s"
    by (simp add: t1_def logger_simps split: option.splits)
  define hdr where "hdr = ''## File: '' @ relPath @ [newline]"
  obtain r2 t2 where p2: "Fprintf hdr t1 = (r2, t2)"
    by (cases "Fprintf hdr t1") auto
  obtain r3 t3 where p3: "Fprintf (fence @ [newline]) t2 = (r3, t3)"
    by (cases "Fprintf (fence @ [newline]) t2") auto
  have sc: "Scan (NewScanner f) = (None, (NewScanner f)\<lparr>stopped := map_option PathError (read_err f)\<rparr>)"
    using assms(2) by (simp add: Scan_def NewScanner_def)
  then have p4: "copy_lines (NewScanner f) 0 t3 =
      (None, (NewScanner f)\<lparr>stopped := map_option PathError (read_err f)\<rparr>, 0, t3)"
    by (simp add: copy_lines.simps [of "NewScanner f"])
  define t5 where "t5 = logger LevelDebug ''File processed''
                  [(''path'', AString relPath), (''lines'', AInt 0)] t3"
  obtain r6 t6 where p6: "Fprintf (fence @ [newline, newline]) t5 = (r6, t6)"
    by (cases "Fprintf (fence @ [newline, newline]) t5") auto
  have t5: "out t5 = out t3"
    by (simp add: t5_def logger_simps)
  from assms(1) have ok: "r2 = None \<and> r3 = None \<and> read_err f = None \<and> r6 = None \<and> s1 = t6"
    unfolding transcribe_def Let_def t1_def [symmetric] hdr_def [symmetric]
    by (simp add: p2 p3 p4 p6 t5_def [symmetric] split: option.splits)
  from ok p2 p3 p6 have p: "Fprintf hdr t1 = (None, t2)" "Fprintf (fence @ [newline]) t2 = (None, t3)"
    "Fprintf (fence @ [newline, newline]) t5 = (None, s1)"
    by simp_all
  from Fprintf_ok(1) [OF p(3)] t5 assms(4) have l: "length (stream (out t3)) \<le> defaultBufSize"
    by simp
  from assms(3) t1 have "buffered (out t1)" by simp
  from Fprintf_buffered [OF p(2) Fprintf_buffered [OF p(1) this]] l Fprintf_ok(4) [OF p(2)]
  have f3: "flushed (out t3) = []"
    by (simp add: buffered_def)
  from Fprintf_ok(1) [OF p(1)] Fprintf_ok(1) [OF p(2)] l t1
  have "length (stream (out s)) \<le> defaultBufSize"
    by simp
  moreover have "werr (out s) = None"
  proof (rule ccontr)
    assume "werr (out s) \<noteq> None"
    with t1 have "write_loop (out t1) hdr = (out t1, hdr)" "werr (out t1) \<noteq> None"
      by (simp_all add: write_loop_done)
    with p(1) show False
      by (auto simp: Fprintf_def Write_def split: option.splits)
  qed
  ultimately have f0: "flushed (out s) = []"
    using assms(3) by (simp add: buffered_def)
  from f0 assms(2) have t1': "(case stat_err f of
      Some e \<Rightarrow> logger LevelWarn ''Could not get file stats''
                  [(''path'', AString relPath), (''error'', AError (PathError e))] s
    | None \<Rightarrow> logger LevelDebug ''File info''
                  [(''path'', AString relPath), (''size'', AInt (length (flushed (out s))))] s) = t1"
    by (cases "stat_err f") (simp_all add: t1_def)
  from f3 ok have "Scan_live f (flushed (out t3)) NewScanner_live =
      (None, NewScanner_live\<lparr>ended := True, halted := None\<rparr>)"
    by (simp add: Scan_live_def NewScanner_live_def Scan_def)
  then have c: "copy_lines_live f NewScanner_live 0 t3 =
      Some (None, NewScanner_live\<lparr>ended := True, halted := None\<rparr>, 0, t3)"
    by (subst copy_lines_live.simps) simp
  show ?thesis
    unfolding transcribe_live_def Let_def t1' hdr_def [symmetric]
    by (simp add: p c t5_def [symmetric])
qed

lemma processFile_live_small:
  assumes "processFile f fullPath relPath s = (None, s1)" and "bytes f = []"
    and "buffered (out s)" and "length (stream (out s1)) \<le> defaultBufSize"
  shows "processFile_live f fullPath relPath s = Some (None, s1)"
proof -
  from assms(1) have o: "open_err f = None"
    by (auto simp: processFile_def split: option.splits)
  obtain r2 s2 where t: "transcribe f fullPath relPath s = (r2, s2)"
    by (cases "transcribe f fullPath relPath s") auto
  with assms(1) o have r2: "r2 = None" and s1: "s1 = (case close_err f of
      Some e \<Rightarrow> logger LevelWarn ''Failed to close input file''
                  [(''path'', AString relPath), (''error'', AError (PathError e))] s2
    | None \<Rightarrow> s2)"
    by (auto simp: processFile_def)
  from s1 have "out s1 = out s2"
    by (simp add: logger_simps split: option.splits)
  with assms(4) have "length (stream (out s2)) \<le> defaultBufSize" by simp
  from transcribe_live_small [OF t [unfolded r2] assms(2,3) this] o s1 show ?thesis
    by (simp add: processFile_live_def)
qed

lemma walkFn_live_small:
  assumes "walkFn os config absPath path d err s = (r, s1)"
    and "r \<noteq> None \<longrightarrow> (\<forall>f. d \<noteq> Some (File f))"
    and "\<forall>f. d = Some (File f) \<and> self = Some path \<longrightarrow> bytes f = []"
    and "buffered (out s)" and "length (stream (out s1)) \<le> defaultBufSize"
  shows "walkFn_live os config absPath self path d err (Some s) = (r, Some s1)"
proof (cases "\<exists>f relPath. err = None \<and> Rel os absPath path = Inr relPath \<and> d = Some (File f) \<and>
    shouldIncludeFile os path (includeMap config) \<and> self = Some path")
  case True
  then obtain f relPath where c: "err = None" "Rel os absPath path = Inr relPath"
    "d = Some (File f)" "shouldIncludeFile os path (includeMap config)" "self = Some path"
    by auto
  with assms(2,3) have r: "r = None" and b: "bytes f = []" by auto
  define s0 where "s0 = logger LevelDebug ''Processing file'' [(''path'', AString relPath)] s"
  obtain r2 s2 where pf: "processFile f path relPath s0 = (r2, s2)"
    by (cases "processFile f path relPath s0") auto
  with assms(1) c r have r2: "r2 = None" and s1: "s1 = s2\<lparr>fileCount := Suc (fileCount s2)\<rparr>"
    by (auto simp: walkFn_def s0_def [symmetric] split: option.splits)
  from assms(4) have b0: "buffered (out s0)"
    by (simp add: s0_def logger_simps)
  from assms(5) s1 have "length (stream (out s2)) \<le> defaultBufSize" by simp
  from processFile_live_small [OF pf [unfolded r2] b b0 this] c r s1 show ?thesis
    by (simp add: walkFn_live_def processFile_at_def s0_def [symmetric])
next
  case False
  obtain r0 s0 where w: "walkFn os config absPath path d err s = (r0, s0)"
    by (cases "walkFn os config absPath path d err s") auto
  from False have "walkFn_live os config absPath self path d err (Some s) =
         (case walkFn os config absPath path d err s of (e, s1) \<Rightarrow> (e, Some s1))"
    by (auto simp: walkFn_live_def walkFn_def processFile_at_def
        split: option.splits sum.splits node.splits prod.splits)
  with assms(1) show ?thesis by simp
qed

lemma walkFn_live_dir:
  assumes "\<forall>f. d \<noteq> Some (File f)"
  shows "walkFn_live os config absPath self path d err (Some s) =
         (case walkFn os config absPath path d err s of (e, s1) \<Rightarrow> (e, Some s1))"
  using assms
  by (auto simp: walkFn_live_def walkFn_def split: option.splits sum.splits node.splits)

lemma transcribed_longer:
  "transcribed os absPath files s s1 \<Longrightarrow> length (stream (out s)) \<le> length (stream (out s1))"
  by (simp add: transcribed_def)

lemma walk_live_small:
  "fn = walkFn os config absPath \<Longrightarrow> within_root os absPath path \<Longrightarrow>
   walkDir os fn path d s = (None, s1) \<Longrightarrow> buffered (out s) \<Longrightarrow>
   length (stream (out s1)) \<le> defaultBufSize \<Longrightarrow> blank_at os self path d \<Longrightarrow>
   walkDir os (walkFn_live os config absPath self) path d (Some s) = (None, Some s1) \<and>
   buffered (out s1)"
  "fn = walkFn os config absPath \<Longrightarrow> within_root os absPath path \<Longrightarrow>
   walkEntries os fn path entries s = (None, s1) \<Longrightarrow> buffered (out s) \<Longrightarrow>
   length (stream (out s1)) \<le> defaultBufSize \<Longrightarrow> blank_entries os self path entries \<Longrightarrow>
   walkEntries os (walkFn_live os config absPath self) path entries (Some s) = (None, Some s1) \<and>
   buffered (out s1)"
proof (induction os fn path d s and os fn path entries s arbitrary: s1 and s1
    rule: walkDir_walkEntries.induct)
  case (1 os fn path f s)
  from "1.prems"(1,3) have c: "walkFn os config absPath path (Some (File f)) None s = (None, s1)"
    by simp
  from "1.prems"(6) have "\<forall>g. Some (File f) = Some (File g) \<and> self = Some path \<longrightarrow> bytes g = []"
    by simp
  from walkFn_live_small [OF c _ this "1.prems"(4,5)] walkFn_buffered [OF c "1.prems"(4)]
  show ?case by simp
next
  case (2 os fn path entries s)
  note cb = walkFn_dir [OF "2.prems"(2), of "Dir entries" config s]
  note lv = walkFn_live_dir [of "Some (Dir entries)" os config absPath self path None s]
  show ?case
  proof (cases "excluded os config absPath path")
    case True
    with "2.prems"(1,3) cb have "s1 = logger LevelDebug ''Excluding directory''
        [(''path'', AString (relative os absPath path))] s"
      by (simp add: skipped_def)
    with True cb lv "2.prems"(4) show ?thesis
      by (simp add: skipped_def logger_simps)
  next
    case False
    with "2.prems"(1) cb have c: "(None, s) = fn path (Some (Dir entries)) None s"
      by simp
    with "2.prems"(3) have "walkEntries os fn path entries s = (None, s1)"
      by (simp split: prod.splits option.splits)
    from "2.IH" [OF c refl "2.prems"(1,2) this "2.prems"(4,5)] "2.prems"(6) False cb lv
    show ?thesis
      by simp
  qed
next
  case (3 os fn path e s)
  note cb = walkFn_dir [OF "3.prems"(2), of "Unlistable e" config s]
  note lv = walkFn_live_dir [of "Some (Unlistable e)" os config absPath self path None s]
  show ?case
  proof (cases "excluded os config absPath path")
    case True
    with "3.prems"(1,3) cb have "s1 = logger LevelDebug ''Excluding directory''
        [(''path'', AString (relative os absPath path))] s"
      by (simp add: skipped_def)
    with True cb lv "3.prems"(4) show ?thesis
      by (simp add: skipped_def logger_simps)
  next
    case False
    with "3.prems"(1,3) cb walkFn_err [of os config absPath path "Some (Unlistable e)" "PathError e" s]
    show ?thesis
      by (simp add: skipped_def)
  qed
next
  case (4 os fn path s)
  then show ?case by simp
next
  case (5 os fn path name d1 dirs s)
  obtain r1 t1 where w1: "walkDir os fn (JoinPath os path name) d1 s = (r1, t1)"
    by (cases "walkDir os fn (JoinPath os path name) d1 s") auto
  note wr = within_root_JoinPath [OF "5.prems"(2), of name]
  from walk_transcribes(1) [OF "5.prems"(1) wr _ w1, of "[]"] have ns: "r1 \<noteq> Some SkipDir"
    by simp
  with "5.prems"(3) w1 have r1: "r1 = None" and rest: "walkEntries os fn path dirs t1 = (None, s1)"
    by (cases r1; auto split: if_splits)+
  from walk_transcribes(2) [OF "5.prems"(1,2) _ rest, of "[]"] "5.prems"(5)
  have l1: "length (stream (out t1)) \<le> defaultBufSize"
    using transcribed_longer [of os absPath _ t1 s1] by fastforce
  from "5.prems"(6) have b: "blank_at os self (JoinPath os path name) d1"
    "blank_entries os self path dirs"
    by simp_all
  from "5.IH"(1) [OF "5.prems"(1) wr w1 [unfolded r1] "5.prems"(4) l1 b(1)]
  have c1: "walkDir os (walkFn_live os config absPath self) (JoinPath os path name) d1 (Some s)
      = (None, Some t1)" and b1: "buffered (out t1)"
    by simp_all
  from w1 r1 have "(None, t1) = walkDir os fn (JoinPath os path name) d1 s"
    by simp
  from "5.IH"(2) [OF this refl "5.prems"(1,2) rest b1 "5.prems"(5) b(2)] c1 show ?case
    by simp
qed

lemma walk_all_live_small:
  assumes "walk_all os config absPath (Inr tree) s = (None, s1)" and "buffered (out s)"
    and "length (stream (out s1)) \<le> defaultBufSize" and "blank_at os self absPath tree"
  shows "walk_all_live os config absPath self (Inr tree) s = Some (None, s1)"
proof -
  obtain rh sh where h: "writeHeader absPath config s = (rh, sh)"
    by (cases "writeHeader absPath config s") auto
  obtain rw sw where wd: "walkDir os (walkFn os config absPath) absPath tree sh = (rw, sw)"
    by (cases "walkDir os (walkFn os config absPath) absPath tree sh") auto
  from assms(1) h have rh: "rh = None"
    by (auto simp: walk_all_def split: option.splits)
  from walk_transcribes(1) [OF refl within_root_self _ wd, of "[]"] have "rw \<noteq> Some SkipDir"
    by simp
  with assms(1) h rh wd have rw: "rw = None"
    and s1: "s1 = logger LevelInfo ''Processing completed''
                    [(''filesProcessed'', AInt (fileCount sw))] sw"
    by (auto simp: walk_all_def WalkDir_def skipped_def split: option.splits)
  from h assms(2) have bh: "buffered (out sh)"
    using write_headers_buffered [of "header_lines absPath config" s rh sh]
    by (simp add: writeHeader_def)
  from s1 assms(3) have "length (stream (out sw)) \<le> defaultBufSize"
    by (simp add: logger_simps)
  from walk_live_small(1) [OF refl within_root_self wd [unfolded rw] bh this assms(4)] h rh s1
  show ?thesis
    by (simp add: walk_all_live_def WalkDir_def skipped_def)
qed

lemma processDirectory_live_small:
  assumes "abs_path w = Inr absPath" and "Create w place = Inr w2" and "root w2 = Inr tree2"
    and "processDirectory os config w2 = (None, res)"
    and "length (complete_output os config absPath tree2) \<le> defaultBufSize"
    and "blank_at os (map_option (path_of os absPath) place) absPath tree2"
  shows "processDirectory_live os config w place = Some (None, res, stored place (written res) w2)"
proof -
  let ?s0 = "\<lparr>out = NewWriter (out_room w2), fileCount = 0,
      logged = [(LevelDebug, ''Processing directory'', [(''absolutePath'', AString absPath)])]\<rparr>"
  note a = Create_answers [OF assms(2)]
  obtain r s where wa: "walk_all os config absPath (Inr tree2) ?s0 = (r, s)"
    by (cases "walk_all os config absPath (Inr tree2) ?s0") auto
  with assms(1,3,4) a have r: "r = None" and res: "res = deferred w2 s"
    by (simp_all add: processDirectory_def Let_def)
  from walk_all_ok(1) [OF wa [unfolded r]] assms(5)
  have l: "length (stream (out s)) \<le> defaultBufSize"
    by (simp add: NewWriter_def stream_def)
  have "buffered (out ?s0)"
    by (simp add: buffered_def NewWriter_def)
  from walk_all_live_small [OF wa [unfolded r] this l assms(6)] assms(1,2,3) res
  show ?thesis
    by (simp add: processDirectory_live_def Let_def)
qed

subsection \<open>The example tree with its output file\<close>

lemma context_created: "Create example_world context_place = Inr created_world"
  by (simp add: Create_def context_place_def example_world_def created_world_def
      example_tree_def created_tree_def)

lemma context_path: "path_of Unix ''/r'' [''context.txt''] = ''/r/context.txt''"
  by (simp add: path_of_def JoinPath_def with_separator_def slash_def)

lemma context_not_included:
  "\<not> shouldIncludeFile Unix ''/r/context.txt'' (includeMap (newConfig no_trim example_flags))"
  by (simp add: example_config shouldIncludeFile_def is_empty_createLookupMap
      index_createLookupMap Ext_def dot_def slash_def)

lemma created_selected:
  "selected Unix (newConfig no_trim example_flags) ''/r'' created_tree =
     selected Unix (newConfig no_trim example_flags) ''/r'' example_tree"
  by (simp add: selected_def example_tree_def created_tree_def example_paths chosen_def
      example_excluded example_included context_not_included JoinPath_def with_separator_def
      slash_def)

lemma created_readable:
  "readable Unix (newConfig no_trim example_flags) ''/r'' ''/r'' created_tree"
  by (simp add: created_tree_def example_paths example_excluded example_included
      scan_all_example context_not_included JoinPath_def with_separator_def slash_def,
      simp add: plain_file_def)

lemma created_world_run:
  "processDirectory Unix (newConfig no_trim example_flags) created_world =
     (None, snd (processDirectory Unix (newConfig no_trim example_flags) created_world))"
proof -
  have "fst (processDirectory Unix (newConfig no_trim example_flags) created_world) = None"
    by (rule processDirectory_succeeds [where absPath = "''/r''" and tree = created_tree])
      (simp_all add: created_world_def example_world_def created_readable)
  then show ?thesis by (simp add: prod_eq_iff)
qed

lemma created_world_written:
  "written (snd (processDirectory Unix (newConfig no_trim example_flags) created_world)) =
     Some (complete_output Unix (newConfig no_trim example_flags) ''/r'' example_tree)"
  using processDirectory_ok(3) [OF created_world_run, of "''/r''" created_tree]
  by (simp add: created_world_def example_world_def complete_output_def created_selected)


lemma processDirectory_written:
  assumes "abs_path w = Inr absPath" and "create_err w = None"
  shows "\<exists>str. written (snd (processDirectory os config w)) = Some str"
proof -
  let ?s0 = "\<lparr>out = NewWriter (out_room w), fileCount = 0,
      logged = [(LevelDebug, ''Processing directory'', [(''absolutePath'', AString absPath)])]\<rparr>"
  obtain r s where wa: "walk_all os config absPath (root w) ?s0 = (r, s)"
    by (cases "walk_all os config absPath (root w) ?s0") auto
  obtain b e where "Flush (out s) = (b, e)"
    by (cases "Flush (out s)") auto
  with wa assms show ?thesis
    by (simp add: processDirectory_def deferred_def Let_def)
qed

subsection \<open>A directory with one file and the output file\<close>

lemma default_config:
  "excludeDirs (newConfig no_trim default_flags) = [''.git'']"
  "includeExts (newConfig no_trim default_flags) = []"
  "excludeMap (newConfig no_trim default_flags) = createLookupMap [''.git'']"
  "includeMap (newConfig no_trim default_flags) = createLookupMap []"
  by (simp_all add: newConfig_def default_flags_def no_trim_def parseCommaSeparated_def
      ensureGitExcluded_def Let_def)

lemma listed_created: "Create single_world context_place = Inr listed_world"
  by (simp add: Create_def context_place_def example_world_def single_world_def listed_world_def
      listed_tree_def)

lemma listed_paths:
  "JoinPath Unix ''/r'' ''context.txt'' = ''/r/context.txt''"
  "relative Unix ''/r'' ''/r/context.txt'' = ''context.txt''"
  by (simp_all add: JoinPath_def relative_def Rel_def with_separator_def slash_def)

lemma listed_excluded: "\<not> excluded Unix (newConfig no_trim default_flags) ''/r'' ''/r''"
  by (simp add: excluded_def example_relative default_config shouldExcludeDir_def
      is_empty_createLookupMap any_part_excluded_iff index_createLookupMap slash_def)

lemma listed_included: "shouldIncludeFile Unix path (includeMap (newConfig no_trim default_flags))"
  by (simp add: default_config shouldIncludeFile_def is_empty_createLookupMap)

lemma scan_all_new_file:
  "scan_all (NewScanner new_file) = ([], \<lparr>unread = [], pending = None, stopped = None\<rparr>)"
  by (simp add: NewScanner_def new_file_def scan_all.simps Scan_def)

lemma listed_selected:
  "selected Unix (newConfig no_trim default_flags) ''/r'' listed_tree =
     [(''/r/a.go'', [''/r''], plain_file two_lines), (''/r/context.txt'', [''/r''], new_file)]"
  by (simp add: selected_def listed_tree_def example_paths listed_paths chosen_def
      listed_excluded listed_included)

lemma listed_output:
  "complete_output Unix (newConfig no_trim default_flags) ''/r'' listed_tree = listed_text"
  by (simp add: complete_output_def listed_selected sections_def example_relative listed_paths
      listed_text_def)

lemma listed_readable:
  "readable Unix (newConfig no_trim default_flags) ''/r'' ''/r'' listed_tree"
  by (simp add: listed_tree_def example_paths listed_paths listed_excluded listed_included
      scan_all_example scan_all_new_file, simp add: plain_file_def new_file_def)

lemma listed_world_run:
  "processDirectory Unix (newConfig no_trim default_flags) listed_world =
     (None, snd (processDirectory Unix (newConfig no_trim default_flags) listed_world))"
proof -
  have "fst (processDirectory Unix (newConfig no_trim default_flags) listed_world) = None"
    by (rule processDirectory_succeeds [where absPath = "''/r''" and tree = listed_tree])
      (simp_all add: listed_world_def example_world_def listed_readable)
  then show ?thesis by (simp add: prod_eq_iff)
qed

lemma listed_world_written:
  "written (snd (processDirectory Unix (newConfig no_trim default_flags) listed_world)) =
     Some listed_text"
  using processDirectory_ok(3) [OF listed_world_run, of "''/r''" listed_tree]
  by (simp add: listed_world_def example_world_def listed_output)

lemma listed_text_fits: "length listed_text \<le> defaultBufSize"
  by (simp add: listed_text_def header_lines_def default_config section_of_def file_lines_def
      scan_all_example scan_all_new_file fence_def defaultBufSize_def)

lemma listed_blank: "blank_at Unix (Some ''/r/context.txt'') ''/r'' listed_tree"
  by (simp add: listed_tree_def example_paths listed_paths new_file_def)

section \<open>The claims\<close>

subsection \<open>C1: the files of the output\<close>



subsection \<open>C2: the section of a file\<close>

text \<open>
  C2.  Take bytes made of lines ended by newline or by carriage return and newline, and of a
  last part \<open>rest\<close> without newline.  When \<^verbatim>\<open>processFile\<close> returns no error on a file with
  these bytes, the writer has received, after what it had: the header line with the
  relative path, the opening fence line, every line without its terminator and followed by
  one newline, then \<open>rest\<close> (unless empty) without one terminal carriage return and followed
  by one newline, and the closing fence line followed by an empty line.  And it does return
  no error when the file opens and reads without error, every line fits the scanner's 64 KiB
  with its terminator, and the writer has no limit and no pending error.
\<close>

theorem processFile_transcript:
  assumes "bytes f = concat (map terminated ls) @ rest"
    and "\<forall>(l, crlf) \<in> set ls. newline \<notin> set l \<and> (\<not> crlf \<longrightarrow> l = [] \<or> last l \<noteq> carriage_return)"
    and "newline \<notin> set rest"
  shows "(processFile f fullPath relPath s = (None, s1) \<longrightarrow>
          stream (out s1) =
            stream (out s) @ ''## File: '' @ relPath @ [newline] @ fence @ [newline]
            @ concat (map (\<lambda>line. line @ [newline])
                (map fst ls @ (if rest = [] then [] else [dropCR rest])))
            @ fence @ [newline, newline]) \<and>
         (open_err f = None \<and> read_err f = None \<and>
          (\<forall>(l, crlf) \<in> set ls. length (terminated (l, crlf)) \<le> MaxScanTokenSize) \<and>
          length rest < MaxScanTokenSize \<and> room (out s) = None \<and> werr (out s) = None \<longrightarrow>
          fst (processFile f fullPath relPath s) = None)"
proof (intro conjI impI)
  have sc: "NewScanner f = \<lparr>unread = concat (map terminated ls) @ rest, pending = read_err f,
      stopped = None\<rparr>"
    by (simp add: NewScanner_def assms(1))
  {
    assume run: "processFile f fullPath relPath s = (None, s1)"
    from processFile_ok(3) [OF run] scan_all_lines [OF assms(2,3), of "read_err f" None]
    have "file_lines f = map fst ls @ (if rest = [] then [] else [dropCR rest])"
      unfolding file_lines_def sc by simp
    with processFile_ok(1) [OF run]
    show "stream (out s1) =
            stream (out s) @ ''## File: '' @ relPath @ [newline] @ fence @ [newline]
            @ concat (map (\<lambda>line. line @ [newline])
                (map fst ls @ (if rest = [] then [] else [dropCR rest])))
            @ fence @ [newline, newline]"
      by (simp add: section_of_def)
  }
  assume ok: "open_err f = None \<and> read_err f = None \<and>
          (\<forall>(l, crlf) \<in> set ls. length (terminated (l, crlf)) \<le> MaxScanTokenSize) \<and>
          length rest < MaxScanTokenSize \<and> room (out s) = None \<and> werr (out s) = None"
  with assms(2)
  have "\<forall>(l, crlf) \<in> set ls. newline \<notin> set l \<and> length (terminated (l, crlf)) \<le> MaxScanTokenSize"
    by fastforce
  from scan_all_short [OF this assms(3), of "read_err f" None] ok
  have "stopped (snd (scan_all (NewScanner f))) = None"
    unfolding sc by simp
  with ok show "fst (processFile f fullPath relPath s) = None"
    by (simp add: processFile_succeeds)
qed

theorem processFile_transcript_witness:
  "bytes (plain_file two_lines) = concat (map terminated [(''a'', True)]) @ ''b'' \<and>
   newline \<notin> set ''a'' \<and> newline \<notin> set ''b'' \<and>
   open_err (plain_file two_lines) = None \<and> read_err (plain_file two_lines) = None \<and>
   length (terminated (''a'', True)) \<le> MaxScanTokenSize \<and> length ''b'' < MaxScanTokenSize \<and>
   room (out (fresh_run None)) = None \<and> werr (out (fresh_run None)) = None \<and>
   processFile (plain_file two_lines) ''/r/x.go'' ''x.go'' (fresh_run None) =
     (None, snd (processFile (plain_file two_lines) ''/r/x.go'' ''x.go'' (fresh_run None))) \<and>
   stream (out (snd (processFile (plain_file two_lines) ''/r/x.go'' ''x.go'' (fresh_run None)))) =
     ''## File: x.go'' @ [newline] @ fence @ [newline] @ ''a'' @ [newline] @ ''b'' @ [newline]
     @ fence @ [newline, newline]"
proof -
  let ?f = "plain_file two_lines"
  let ?s1 = "snd (processFile ?f ''/r/x.go'' ''x.go'' (fresh_run None))"
  have b: "bytes ?f = concat (map terminated [(''a'', True)]) @ ''b''"
    by (simp add: plain_file_def two_lines_def)
  have l: "\<forall>(l, crlf) \<in> set [(''a'', True)].
      newline \<notin> set l \<and> (\<not> crlf \<longrightarrow> l = [] \<or> last l \<noteq> carriage_return)"
    by (simp add: newline_def)
  have r: "newline \<notin> set ''b''"
    by (simp add: newline_def)
  have e: "open_err ?f = None" "read_err ?f = None"
    by (simp_all add: plain_file_def)
  have n: "length (terminated (''a'', True)) \<le> MaxScanTokenSize" "length ''b'' < MaxScanTokenSize"
    by (simp_all add: MaxScanTokenSize_def)
  from processFile_transcript [OF b l r, of "''/r/x.go''" "''x.go''" "fresh_run None" ?s1] e n
  have run: "fst (processFile ?f ''/r/x.go'' ''x.go'' (fresh_run None)) = None"
    and out: "processFile ?f ''/r/x.go'' ''x.go'' (fresh_run None) = (None, ?s1) \<longrightarrow>
      stream (out ?s1) = ''## File: x.go'' @ [newline] @ fence @ [newline] @ ''a'' @ [newline]
        @ ''b'' @ [newline] @ fence @ [newline, newline]"
    by (simp_all add: fresh_run_simps dropCR_def carriage_return_def)
  from run have "processFile ?f ''/r/x.go'' ''x.go'' (fresh_run None) = (None, ?s1)"
    by (simp add: prod_eq_iff)
  with out b r e n show ?thesis
    by (simp add: fresh_run_simps newline_def)
qed

subsection \<open>C3: excluded directories\<close>

text \<open>
  C3.  \<^verbatim>\<open>shouldExcludeDir\<close> is false for an empty exclusion map.  For a relative path made of
  the segments \<open>segs\<close> joined by the separator, it is true exactly when some segment is
  indexed true in the exclusion map or the whole relative path is.  For the map that
  \<^verbatim>\<open>createLookupMap\<close> builds from a list of items this is: some segment equals an item, or
  the whole relative path equals an item; nothing is matched but by equality.
\<close>

theorem shouldExcludeDir_segments:
  "(Mapping.is_empty exclusions \<longrightarrow> \<not> shouldExcludeDir os relPath exclusions) \<and>
   (segs \<noteq> [] \<and> (\<forall>seg \<in> set segs. Separator os \<notin> set seg) \<longrightarrow>
      shouldExcludeDir os (Join segs [Separator os]) exclusions =
        ((\<exists>seg \<in> set segs. index exclusions seg) \<or> index exclusions (Join segs [Separator os])) \<and>
      shouldExcludeDir os (Join segs [Separator os]) (createLookupMap items) =
        ((\<exists>seg \<in> set segs. seg \<in> set items) \<or> Join segs [Separator os] \<in> set items))"
proof (intro conjI impI)
  show "\<not> shouldExcludeDir os relPath exclusions" if "Mapping.is_empty exclusions"
    using that by (simp add: shouldExcludeDir_def)
next
  assume a: "segs \<noteq> [] \<and> (\<forall>seg \<in> set segs. Separator os \<notin> set seg)"
  then have sp: "Split (Join segs [Separator os]) (Separator os) = segs"
    by (simp add: Split_Join)
  have gen: "shouldExcludeDir os (Join segs [Separator os]) m =
        ((\<exists>seg \<in> set segs. index m seg) \<or> index m (Join segs [Separator os]))" for m
    using sp by (auto simp: shouldExcludeDir_def any_part_excluded_iff is_empty_index)
  show "shouldExcludeDir os (Join segs [Separator os]) exclusions =
        ((\<exists>seg \<in> set segs. index exclusions seg) \<or> index exclusions (Join segs [Separator os]))"
    by (rule gen)
  show "shouldExcludeDir os (Join segs [Separator os]) (createLookupMap items) =
        ((\<exists>seg \<in> set segs. seg \<in> set items) \<or> Join segs [Separator os] \<in> set items)"
    by (simp add: gen index_createLookupMap)
qed

theorem shouldExcludeDir_segments_witness:
  "[''src'', ''node_modules'', ''pkg''] \<noteq> [] \<and>
   Separator Unix \<notin> set ''src'' \<and> Separator Unix \<notin> set ''node_modules'' \<and>
   Separator Unix \<notin> set ''pkg'' \<and>
   \<not> Mapping.is_empty (createLookupMap [''node_modules'', ''.git'']) \<and>
   Mapping.is_empty (createLookupMap []) \<and>
   \<not> shouldExcludeDir Unix ''src/node_modules/pkg'' (createLookupMap []) \<and>
   shouldExcludeDir Unix ''src/node_modules/pkg'' (createLookupMap [''node_modules'', ''.git'']) \<and>
   \<not> shouldExcludeDir Unix ''src/node_modules/pkg'' (createLookupMap [''node'', ''src/node_modules'', ''.git''])"
  using shouldExcludeDir_segments [of "createLookupMap []" Unix "''src/node_modules/pkg''"
      "[''src'', ''node_modules'', ''pkg'']" "[''node_modules'', ''.git'']"]
    shouldExcludeDir_segments [of "createLookupMap []" Unix "''src/node_modules/pkg''"
      "[''src'', ''node_modules'', ''pkg'']" "[''node'', ''src/node_modules'', ''.git'']"]
  by (simp add: is_empty_createLookupMap slash_def)

subsection \<open>C4: included files\<close>

text \<open>
  C4.  \<^verbatim>\<open>shouldIncludeFile\<close> is true for an empty inclusion map; for a non-empty one it is
  the lookup of \<^verbatim>\<open>filepath.Ext\<close> of the path.  The inclusion map of a run is built by
  \<^verbatim>\<open>createLookupMap\<close> from the items of the extensions flag, none of which is empty.  For
  a map built from \<open>items\<close> the file is included when there are no items, and otherwise
  exactly when its extension is one of the items.  The extension of a path that ends in a dot
  followed by bytes that are neither dots nor path separators is that dot with those bytes.
  A path whose file name has no dot has the empty extension: it is not included when there
  are items and none of them is empty, so never by a non-empty inclusion map built from the
  extensions flag.
\<close>

theorem shouldIncludeFile_extension:
  "(Mapping.is_empty inclusions \<longrightarrow> shouldIncludeFile os filePath inclusions) \<and>
   (\<not> Mapping.is_empty inclusions \<longrightarrow>
      shouldIncludeFile os filePath inclusions = index inclusions (Ext os filePath)) \<and>
   includeMap (newConfig trim fl) = createLookupMap (parseCommaSeparated trim (extensions_flag fl)) \<and>
   [] \<notin> set (parseCommaSeparated trim flag) \<and>
   (items = [] \<longrightarrow> shouldIncludeFile os filePath (createLookupMap items)) \<and>
   (items \<noteq> [] \<longrightarrow>
      shouldIncludeFile os filePath (createLookupMap items) = (Ext os filePath \<in> set items)) \<and>
   ((\<forall>c \<in> set ext. \<not> IsPathSeparator os c \<and> c \<noteq> dot) \<longrightarrow>
      Ext os (pre @ dot # ext) = dot # ext) \<and>
   ((\<forall>c \<in> set name. \<not> IsPathSeparator os c \<and> c \<noteq> dot) \<and>
    (dir = [] \<or> IsPathSeparator os (last dir)) \<longrightarrow>
      Ext os (dir @ name) = [] \<and>
      (items \<noteq> [] \<and> [] \<notin> set items \<longrightarrow>
         \<not> shouldIncludeFile os (dir @ name) (createLookupMap items)) \<and>
      (parseCommaSeparated trim flag \<noteq> [] \<longrightarrow>
         \<not> shouldIncludeFile os (dir @ name) (createLookupMap (parseCommaSeparated trim flag))))"
proof (intro conjI impI)
  show "shouldIncludeFile os filePath inclusions" if "Mapping.is_empty inclusions"
    using that by (simp add: shouldIncludeFile_def)
  show "shouldIncludeFile os filePath inclusions = index inclusions (Ext os filePath)"
    if "\<not> Mapping.is_empty inclusions"
    using that by (simp add: shouldIncludeFile_def)
  show "includeMap (newConfig trim fl) =
        createLookupMap (parseCommaSeparated trim (extensions_flag fl))"
    by (simp add: newConfig_def Let_def)
  show "[] \<notin> set (parseCommaSeparated trim flag)"
    by (rule parseCommaSeparated_nonempty)
  show "shouldIncludeFile os filePath (createLookupMap items)" if "items = []"
    using that by (simp add: shouldIncludeFile_def is_empty_createLookupMap)
  show "shouldIncludeFile os filePath (createLookupMap items) = (Ext os filePath \<in> set items)"
    if "items \<noteq> []"
    using that by (simp add: shouldIncludeFile_def is_empty_createLookupMap index_createLookupMap)
  show "Ext os (pre @ dot # ext) = dot # ext"
    if "\<forall>c \<in> set ext. \<not> IsPathSeparator os c \<and> c \<noteq> dot"
    using that by (simp add: Ext_suffix)
next
  assume a: "(\<forall>c \<in> set name. \<not> IsPathSeparator os c \<and> c \<noteq> dot) \<and>
    (dir = [] \<or> IsPathSeparator os (last dir))"
  then show e: "Ext os (dir @ name) = []"
    by (simp add: Ext_no_dot)
  show "\<not> shouldIncludeFile os (dir @ name) (createLookupMap items)"
    if "items \<noteq> [] \<and> [] \<notin> set items"
    using that e
    by (simp add: shouldIncludeFile_def is_empty_createLookupMap index_createLookupMap)
  show "\<not> shouldIncludeFile os (dir @ name) (createLookupMap (parseCommaSeparated trim flag))"
    if "parseCommaSeparated trim flag \<noteq> []"
    using that e parseCommaSeparated_nonempty [of trim flag]
    by (simp add: shouldIncludeFile_def is_empty_createLookupMap index_createLookupMap)
qed

theorem shouldIncludeFile_extension_witness:
  "Mapping.is_empty (createLookupMap []) \<and>
   shouldIncludeFile Unix ''/r/notes.txt'' (createLookupMap []) \<and>
   parseCommaSeparated no_trim ''.go,.ts'' = [''.go'', ''.ts''] \<and>
   \<not> Mapping.is_empty (createLookupMap [''.go'', ''.ts'']) \<and>
   list_all (\<lambda>c. \<not> IsPathSeparator Unix c \<and> c \<noteq> dot) ''go'' \<and>
   Ext Unix ''/r/sub.d/c.test.go'' = ''.go'' \<and>
   shouldIncludeFile Unix ''/r/sub.d/c.test.go'' (createLookupMap [''.go'', ''.ts'']) \<and>
   \<not> shouldIncludeFile Unix ''/r/notes.txt'' (createLookupMap [''.go'', ''.ts'']) \<and>
   list_all (\<lambda>c. \<not> IsPathSeparator Unix c \<and> c \<noteq> dot) ''Makefile'' \<and>
   IsPathSeparator Unix (last ''/r/sub.d/'') \<and>
   Ext Unix ''/r/sub.d/Makefile'' = [] \<and>
   \<not> shouldIncludeFile Unix ''/r/sub.d/Makefile'' (createLookupMap [''.go'', ''.ts''])"
proof -
  have p: "parseCommaSeparated no_trim ''.go,.ts'' = [''.go'', ''.ts'']"
    by (simp add: parseCommaSeparated_def comma_def no_trim_def)
  have t: "Ext Unix ''/r/notes.txt'' = ''.txt''"
    by (simp add: Ext_def dot_def slash_def)
  from shouldIncludeFile_extension [where inclusions = "createLookupMap []" and os = Unix
      and filePath = "''/r/notes.txt''" and items = "[''.go'', ''.ts'']" and ext = "''go''"
      and pre = "''/r/sub.d/c.test''" and name = "''Makefile''" and dir = "''/r/sub.d/''"
      and trim = no_trim and flag = "''.go,.ts''"]
    shouldIncludeFile_extension [where inclusions = "createLookupMap [''.go'', ''.ts'']"
      and os = Unix and filePath = "''/r/sub.d/c.test.go''" and items = "[''.go'', ''.ts'']"
      and ext = "''go''" and pre = "''/r/sub.d/c.test''" and name = "''Makefile''"
      and dir = "''/r/sub.d/''" and trim = no_trim and flag = "''.go,.ts''"] p t
  show ?thesis
    by (simp add: is_empty_createLookupMap index_createLookupMap dot_def slash_def)
qed

subsection \<open>C5: the version-control directory\<close>

text \<open>
  C5.  Whatever list the user supplied, \<^verbatim>\<open>.git\<close> is an item of the list that
  \<^verbatim>\<open>ensureGitExcluded\<close> returns and is indexed true in the exclusion map built from it; a
  list that holds \<^verbatim>\<open>.git\<close> is returned as it is, and otherwise \<^verbatim>\<open>.git\<close> is added once.  The
  configuration of a run takes its exclusion list and map from there, and a header written
  without error holds the line of excluded directories with that list joined by commas,
  \<^verbatim>\<open>.git\<close> in it.
\<close>

theorem git_always_excluded:
  "''.git'' \<in> set (ensureGitExcluded dirs) \<and>
   index (createLookupMap (ensureGitExcluded dirs)) ''.git'' \<and>
   (''.git'' \<in> set dirs \<longrightarrow> ensureGitExcluded dirs = dirs) \<and>
   (''.git'' \<notin> set dirs \<longrightarrow> ensureGitExcluded dirs = dirs @ [''.git'']) \<and>
   excludeDirs (newConfig trim fl) =
     ensureGitExcluded (parseCommaSeparated trim (exclude_flag fl)) \<and>
   excludeMap (newConfig trim fl) = createLookupMap (excludeDirs (newConfig trim fl)) \<and>
   (writeHeader absPath (newConfig trim fl) s = (None, s1) \<longrightarrow>
      (\<exists>before after. stream (out s1) =
         stream (out s) @ before @ ''# Excluded directories: ''
         @ Join (excludeDirs (newConfig trim fl)) '', '' @ [newline] @ after) \<and>
      (\<exists>before after. Join (excludeDirs (newConfig trim fl)) '', '' = before @ ''.git'' @ after))"
proof -
  have m: "''.git'' \<in> set (ensureGitExcluded ds)" for ds
    by (simp add: ensureGitExcluded_def has_git_iff)
  have c: "excludeDirs (newConfig trim fl) =
     ensureGitExcluded (parseCommaSeparated trim (exclude_flag fl))"
    by (simp add: newConfig_def Let_def)
  have h: "\<exists>before after. stream (out s1) =
         stream (out s) @ before @ ''# Excluded directories: ''
         @ Join (excludeDirs (newConfig trim fl)) '', '' @ [newline] @ after"
    if "writeHeader absPath (newConfig trim fl) s = (None, s1)"
  proof -
    from that write_headers_ok [of "header_lines absPath (newConfig trim fl)" s s1]
    have "stream (out s1) = stream (out s) @ concat (header_lines absPath (newConfig trim fl))"
      by (simp add: writeHeader_def)
    with header_lines_excluded [of absPath "newConfig trim fl"] show ?thesis
      by auto
  qed
  have j: "\<exists>before after. Join (excludeDirs (newConfig trim fl)) '', '' = before @ ''.git'' @ after"
    unfolding c by (rule Join_member) (rule m)
  show ?thesis
    using m [of dirs] c h j
    by (auto simp: ensureGitExcluded_def has_git_iff index_createLookupMap newConfig_def Let_def)
qed

theorem git_always_excluded_witness:
  "''.git'' \<in> set [''.git'', ''dist''] \<and>
   ensureGitExcluded [''.git'', ''dist''] = [''.git'', ''dist''] \<and>
   ''.git'' \<notin> set [''dist''] \<and>
   ensureGitExcluded [''dist''] = [''dist'', ''.git''] \<and>
   index (createLookupMap (ensureGitExcluded [''dist''])) ''.git'' \<and>
   writeHeader ''/r'' (newConfig no_trim example_flags) (fresh_run None) =
     (None, snd (writeHeader ''/r'' (newConfig no_trim example_flags) (fresh_run None))) \<and>
   (\<exists>before after.
      stream (out (snd (writeHeader ''/r'' (newConfig no_trim example_flags) (fresh_run None)))) =
      before @ ''# Excluded directories: node_modules, .git'' @ [newline] @ after)"
proof -
  let ?s1 = "snd (writeHeader ''/r'' (newConfig no_trim example_flags) (fresh_run None))"
  have "fst (writeHeader ''/r'' (newConfig no_trim example_flags) (fresh_run None)) = None"
    unfolding writeHeader_def by (rule write_headers_unlimited) (simp_all add: fresh_run_simps)
  then have run: "writeHeader ''/r'' (newConfig no_trim example_flags) (fresh_run None) = (None, ?s1)"
    by (simp add: prod_eq_iff)
  note t1 = git_always_excluded [of "[''.git'', ''dist'']" no_trim example_flags "''/r''"
      "fresh_run None" ?s1]
  note t2 = git_always_excluded [of "[''dist'']" no_trim example_flags "''/r''"
      "fresh_run None" ?s1]
  from t1 have a: "ensureGitExcluded [''.git'', ''dist''] = [''.git'', ''dist'']"
    by simp
  from t2 have b: "ensureGitExcluded [''dist''] = [''dist'', ''.git'']"
    and c: "index (createLookupMap (ensureGitExcluded [''dist''])) ''.git''"
    by (simp_all add: index_createLookupMap)
  from t1 run have "\<exists>before after. stream (out ?s1) =
         stream (out (fresh_run None)) @ before @ ''# Excluded directories: ''
         @ Join (excludeDirs (newConfig no_trim example_flags)) '', '' @ [newline] @ after"
    by blast
  then have d: "\<exists>before after. stream (out ?s1) =
      before @ ''# Excluded directories: node_modules, .git'' @ [newline] @ after"
    by (simp add: example_config fresh_run_simps)
  from a b c d run show ?thesis
    by (simp add: index_createLookupMap)
qed

subsection \<open>C6: errors end the walk\<close>

text \<open>
  C6.  At a path that the walk reaches: a directory that is not excluded and cannot be
  listed ends its walk with the error of the listing; a file that is to be transcribed and
  cannot be opened ends its walk with the error of the opening, nothing written and nothing
  counted; one that opens and then fails to read ends its walk with an error too, and is
  not counted.  An error of the walk of an entry is the result of the walk of the entries,
  with the state as the failing entry left it; the entries after it change nothing, so they
  are not visited.  The error of the entries is the error of their directory, the error of
  the root is what \<^verbatim>\<open>processDirectory\<close> returns, and \<^verbatim>\<open>main\<close> then exits with code 1.
\<close>

theorem walk_aborts_on_error:
  assumes "within_root os absPath path"
  shows "(\<not> excluded os config absPath path \<longrightarrow>
            walkDir os (walkFn os config absPath) path (Unlistable e) s =
              (Some (PathError e),
               logger LevelWarn ''Error accessing path''
                 [(''path'', AString path), (''error'', AError (PathError e))] s)) \<and>
         (shouldIncludeFile os path (includeMap config) \<and> open_err f = Some e \<longrightarrow>
            walkDir os (walkFn os config absPath) path (File f) s =
              (Some (Wrapped (''failed to open file '' @ path) (PathError e)),
               logger LevelError ''Failed to process file''
                 [(''path'', AString (relative os absPath path)),
                  (''error'', AError (Wrapped (''failed to open file '' @ path) (PathError e)))]
                 (logger LevelDebug ''Processing file''
                    [(''path'', AString (relative os absPath path))] s))) \<and>
         (shouldIncludeFile os path (includeMap config) \<and> read_err f = Some e \<longrightarrow>
            (\<exists>err s1. walkDir os (walkFn os config absPath) path (File f) s = (Some err, s1) \<and>
                       fileCount s1 = fileCount s)) \<and>
         (walkDir os (walkFn os config absPath) (JoinPath os path name) d s = (Some err, s1) \<longrightarrow>
            walkEntries os (walkFn os config absPath) path ((name, d) # after) s = (Some err, s1)) \<and>
         (walkEntries os (walkFn os config absPath) path before s = (Some err, s1) \<longrightarrow>
            walkEntries os (walkFn os config absPath) path (before @ after) s = (Some err, s1)) \<and>
         (\<not> excluded os config absPath path \<and>
          walkEntries os (walkFn os config absPath) path entries s = (Some err, s1) \<longrightarrow>
            walkDir os (walkFn os config absPath) path (Dir entries) s = (Some err, s1)) \<and>
         (abs_path w = Inr absPath \<and> create_err w = None \<and> root w = Inr tree \<and>
          writeHeader absPath config
            \<lparr>out = NewWriter (out_room w), fileCount = 0,
             logged = [(LevelDebug, ''Processing directory'',
                        [(''absolutePath'', AString absPath)])]\<rparr> = (None, s) \<and>
          walkDir os (walkFn os config absPath) absPath tree s = (Some err, s1) \<longrightarrow>
            fst (processDirectory os config w) = Some err \<and>
            (config = newConfig trim fl \<longrightarrow> fst (main os trim fl w) = 1))"
proof (intro conjI impI)
  assume "\<not> excluded os config absPath path"
  with walkFn_dir [OF assms, of "Unlistable e" config s]
    walkFn_err [of os config absPath path "Some (Unlistable e)" "PathError e" s]
  show "walkDir os (walkFn os config absPath) path (Unlistable e) s =
              (Some (PathError e),
               logger LevelWarn ''Error accessing path''
                 [(''path'', AString path), (''error'', AError (PathError e))] s)"
    by (simp add: skipped_def)
next
  assume a: "shouldIncludeFile os path (includeMap config) \<and> open_err f = Some e"
  then have "processFile f path (relative os absPath path)
           (logger LevelDebug ''Processing file'' [(''path'', AString (relative os absPath path))] s)
         = (Some (Wrapped (''failed to open file '' @ path) (PathError e)),
            logger LevelDebug ''Processing file'' [(''path'', AString (relative os absPath path))] s)"
    by (simp add: processFile_unopenable)
  from walkFn_file_error [OF assms _ this] a
  show "walkDir os (walkFn os config absPath) path (File f) s =
              (Some (Wrapped (''failed to open file '' @ path) (PathError e)),
               logger LevelError ''Failed to process file''
                 [(''path'', AString (relative os absPath path)),
                  (''error'', AError (Wrapped (''failed to open file '' @ path) (PathError e)))]
                 (logger LevelDebug ''Processing file''
                    [(''path'', AString (relative os absPath path))] s))"
    by simp
next
  assume a: "shouldIncludeFile os path (includeMap config) \<and> read_err f = Some e"
  define s0 where "s0 = logger LevelDebug ''Processing file''
      [(''path'', AString (relative os absPath path))] s"
  obtain r2 s2 where pf: "processFile f path (relative os absPath path) s0 = (r2, s2)"
    by (cases "processFile f path (relative os absPath path) s0") auto
  with a processFile_read_error [of f e path "relative os absPath path" s0 r2 s2]
  obtain err where r2: "r2 = Some err" by auto
  from walkFn_file_error [OF assms _ pf [unfolded r2 s0_def]] a processFile_frame [OF pf]
  show "\<exists>err s1. walkDir os (walkFn os config absPath) path (File f) s = (Some err, s1) \<and>
                       fileCount s1 = fileCount s"
    by (simp add: logger_simps s0_def)
next
  assume a: "walkDir os (walkFn os config absPath) (JoinPath os path name) d s = (Some err, s1)"
  from walk_transcribes(1) [OF refl within_root_JoinPath [OF assms] _ a, of "[]"]
  have "err \<noteq> SkipDir" by simp
  with a show "walkEntries os (walkFn os config absPath) path ((name, d) # after) s = (Some err, s1)"
    by simp
next
  assume "walkEntries os (walkFn os config absPath) path before s = (Some err, s1)"
  then show "walkEntries os (walkFn os config absPath) path (before @ after) s = (Some err, s1)"
    by (rule walkEntries_abort)
next
  assume "\<not> excluded os config absPath path \<and>
          walkEntries os (walkFn os config absPath) path entries s = (Some err, s1)"
  with walkFn_dir [OF assms, of "Dir entries" config s]
  show "walkDir os (walkFn os config absPath) path (Dir entries) s = (Some err, s1)"
    by simp
next
  assume a: "abs_path w = Inr absPath \<and> create_err w = None \<and> root w = Inr tree \<and>
          writeHeader absPath config
            \<lparr>out = NewWriter (out_room w), fileCount = 0,
             logged = [(LevelDebug, ''Processing directory'',
                        [(''absolutePath'', AString absPath)])]\<rparr> = (None, s) \<and>
          walkDir os (walkFn os config absPath) absPath tree s = (Some err, s1)"
  then show pd: "fst (processDirectory os config w) = Some err"
    using processDirectory_walk_error [of w absPath tree config s os err s1] by blast
  show "fst (main os trim fl w) = 1" if "config = newConfig trim fl"
    using pd that by (simp add: main_exit)
qed

theorem walk_aborts_on_error_witness:
  "within_root Unix ''/r'' ''/r'' \<and> within_root Unix ''/r'' ''/r/a.go'' \<and>
   \<not> excluded Unix (newConfig no_trim example_flags) ''/r'' ''/r'' \<and>
   walkDir Unix (walkFn Unix (newConfig no_trim example_flags) ''/r'') ''/r''
     (Unlistable ''permission denied'') header_written =
     (Some (PathError ''permission denied''),
      logger LevelWarn ''Error accessing path''
        [(''path'', AString ''/r''), (''error'', AError (PathError ''permission denied''))]
        header_written) \<and>
   shouldIncludeFile Unix ''/r/a.go'' (includeMap (newConfig no_trim example_flags)) \<and>
   open_err locked_file = Some ''permission denied'' \<and>
   walkDir Unix (walkFn Unix (newConfig no_trim example_flags) ''/r'') ''/r/a.go''
     (File locked_file) header_written =
     (Some (Wrapped ''failed to open file /r/a.go'' (PathError ''permission denied'')),
      logger LevelError ''Failed to process file''
        [(''path'', AString ''a.go''),
         (''error'', AError (Wrapped ''failed to open file /r/a.go''
                               (PathError ''permission denied'')))]
        (logger LevelDebug ''Processing file'' [(''path'', AString ''a.go'')] header_written)) \<and>
   read_err broken_file = Some ''input/output error'' \<and>
   (\<exists>err s1.
      walkDir Unix (walkFn Unix (newConfig no_trim example_flags) ''/r'') ''/r/a.go''
        (File broken_file) header_written = (Some err, s1) \<and>
      fileCount s1 = fileCount header_written) \<and>
   walkEntries Unix (walkFn Unix (newConfig no_trim example_flags) ''/r'') ''/r''
     [(''a.go'', File locked_file)] header_written =
     (Some (Wrapped ''failed to open file /r/a.go'' (PathError ''permission denied'')),
      logger LevelError ''Failed to process file''
        [(''path'', AString ''a.go''),
         (''error'', AError (Wrapped ''failed to open file /r/a.go''
                               (PathError ''permission denied'')))]
        (logger LevelDebug ''Processing file'' [(''path'', AString ''a.go'')] header_written)) \<and>
   walkEntries Unix (walkFn Unix (newConfig no_trim example_flags) ''/r'') ''/r''
     locked_entries header_written =
     (Some (Wrapped ''failed to open file /r/a.go'' (PathError ''permission denied'')),
      logger LevelError ''Failed to process file''
        [(''path'', AString ''a.go''),
         (''error'', AError (Wrapped ''failed to open file /r/a.go''
                               (PathError ''permission denied'')))]
        (logger LevelDebug ''Processing file'' [(''path'', AString ''a.go'')] header_written)) \<and>
   walkDir Unix (walkFn Unix (newConfig no_trim example_flags) ''/r'') ''/r''
     (Dir locked_entries) header_written =
     (Some (Wrapped ''failed to open file /r/a.go'' (PathError ''permission denied'')),
      logger LevelError ''Failed to process file''
        [(''path'', AString ''a.go''),
         (''error'', AError (Wrapped ''failed to open file /r/a.go''
                               (PathError ''permission denied'')))]
        (logger LevelDebug ''Processing file'' [(''path'', AString ''a.go'')] header_written)) \<and>
   abs_path locked_world = Inr ''/r'' \<and> create_err locked_world = None \<and>
   root locked_world = Inr (Dir locked_entries) \<and>
   writeHeader ''/r'' (newConfig no_trim example_flags)
     \<lparr>out = NewWriter (out_room locked_world), fileCount = 0,
      logged = [(LevelDebug, ''Processing directory'', [(''absolutePath'', AString ''/r'')])]\<rparr>
     = (None, header_written) \<and>
   fst (processDirectory Unix (newConfig no_trim example_flags) locked_world) =
     Some (Wrapped ''failed to open file /r/a.go'' (PathError ''permission denied'')) \<and>
   fst (main Unix no_trim example_flags locked_world) = 1"
proof -
  let ?c = "newConfig no_trim example_flags"
  let ?fn = "walkFn Unix ?c ''/r''"
  let ?E = "Wrapped ''failed to open file /r/a.go'' (PathError ''permission denied'')"
  let ?S = "logger LevelError ''Failed to process file''
        [(''path'', AString ''a.go''), (''error'', AError ?E)]
        (logger LevelDebug ''Processing file'' [(''path'', AString ''a.go'')] header_written)"
  have w: "within_root Unix ''/r'' ''/r''" "within_root Unix ''/r'' ''/r/a.go''"
    by (simp_all add: within_root_def with_separator_def slash_def)
  have ne: "\<not> excluded Unix ?c ''/r'' ''/r''"
    by (rule example_excluded)
  have inc: "shouldIncludeFile Unix ''/r/a.go'' (includeMap ?c)"
    by (rule example_included)
  have lf: "open_err locked_file = Some ''permission denied''"
    and bf: "read_err broken_file = Some ''input/output error''"
    by (simp_all add: locked_file_def broken_file_def plain_file_def)
  have lw: "abs_path locked_world = Inr ''/r''" "create_err locked_world = None"
    "root locked_world = Inr (Dir locked_entries)"
    and hw: "writeHeader ''/r'' ?c
       \<lparr>out = NewWriter (out_room locked_world), fileCount = 0,
        logged = [(LevelDebug, ''Processing directory'', [(''absolutePath'', AString ''/r'')])]\<rparr>
       = (None, header_written)"
    using header_written_run
    by (simp_all add: locked_world_def example_world_def started_def)
  note at_file = walk_aborts_on_error [OF w(2), where config = ?c and s = header_written]
  note at_root = walk_aborts_on_error [OF w(1), where config = ?c and s = header_written]
  from at_root [where e = "''permission denied''"] ne
  have a: "walkDir Unix ?fn ''/r'' (Unlistable ''permission denied'') header_written =
     (Some (PathError ''permission denied''),
      logger LevelWarn ''Error accessing path''
        [(''path'', AString ''/r''), (''error'', AError (PathError ''permission denied''))]
        header_written)"
    by blast
  from at_file [where f = locked_file and e = "''permission denied''"] inc lf
  have b: "walkDir Unix ?fn ''/r/a.go'' (File locked_file) header_written = (Some ?E, ?S)"
    by (simp add: example_relative)
  from at_file [where f = broken_file and e = "''input/output error''"] inc bf
  have c: "\<exists>err s1. walkDir Unix ?fn ''/r/a.go'' (File broken_file) header_written = (Some err, s1) \<and>
      fileCount s1 = fileCount header_written"
    by blast
  from at_root [where name = "''a.go''" and d = "File locked_file" and err = ?E and ?s1.0 = ?S
      and after = "[]"] b
  have d: "walkEntries Unix ?fn ''/r'' [(''a.go'', File locked_file)] header_written = (Some ?E, ?S)"
    by (simp only: example_paths)
  from at_root [where before = "[(''a.go'', File locked_file)]" and err = ?E and ?s1.0 = ?S
      and after = "[(''b.go'', File (plain_file two_lines))]"] d
  have e: "walkEntries Unix ?fn ''/r'' locked_entries header_written = (Some ?E, ?S)"
    by (simp only: locked_entries_def append.simps)
  from at_root [where entries = locked_entries and err = ?E and ?s1.0 = ?S] ne e
  have f: "walkDir Unix ?fn ''/r'' (Dir locked_entries) header_written = (Some ?E, ?S)"
    by blast
  from at_root [where w = locked_world and tree = "Dir locked_entries" and err = ?E and ?s1.0 = ?S
      and trim = no_trim and fl = example_flags] lw hw f
  have g: "fst (processDirectory Unix ?c locked_world) = Some ?E"
    "fst (main Unix no_trim example_flags locked_world) = 1"
    by blast+
  from w ne a inc lf b bf c d e f lw hw g show ?thesis
    by (intro conjI)
qed

subsection \<open>C7: failures of flush and close\<close>

text \<open>
  C7, as the code has it.  Once the output file is created, the result of
  \<^verbatim>\<open>processDirectory\<close> is the result of writing the header and walking the tree, whatever
  the deferred flush and close do: a failure of either adds one record of level error to the
  log and nothing else, and the exit code of \<^verbatim>\<open>main\<close> is 0 exactly when that result is no
  error.
\<close>

theorem cleanup_failures_are_only_logged:
  assumes "abs_path w = Inr absPath" and "create_err w = None"
    and "walk_all os config absPath (root w)
           \<lparr>out = NewWriter (out_room w), fileCount = 0,
            logged = [(LevelDebug, ''Processing directory'', [(''absolutePath'', AString absPath)])]\<rparr>
         = (result, s)"
  shows "fst (processDirectory os config w) = result \<and>
         records (snd (processDirectory os config w)) =
           logged s
           @ (case snd (Flush (out s)) of
                Some e \<Rightarrow> [(LevelError, ''Failed to flush writer'', [(''error'', AError (PathError e))])]
              | None \<Rightarrow> [])
           @ (case out_close_err w of
                Some e \<Rightarrow> [(LevelError, ''Failed to close output file'',
                            [(''error'', AError (PathError e))])]
              | None \<Rightarrow> []) \<and>
         (config = newConfig trim fl \<longrightarrow>
            fst (main os trim fl w) = (if result = None then 0 else 1))"
proof -
  have pd: "processDirectory os config w = (result, deferred w s)"
    using assms by (simp add: processDirectory_def Let_def)
  have "records (deferred w s) =
           logged s
           @ (case snd (Flush (out s)) of
                Some e \<Rightarrow> [(LevelError, ''Failed to flush writer'', [(''error'', AError (PathError e))])]
              | None \<Rightarrow> [])
           @ (case out_close_err w of
                Some e \<Rightarrow> [(LevelError, ''Failed to close output file'',
                            [(''error'', AError (PathError e))])]
              | None \<Rightarrow> [])"
    by (cases "Flush (out s)") (simp add: deferred_def Let_def logger_def split: option.splits)
  moreover have "fst (main os trim fl w) = (if result = None then 0 else 1)"
    if "config = newConfig trim fl"
    using pd that by (simp add: main_def Let_def split: option.splits)
  ultimately show ?thesis
    using pd by simp
qed

theorem cleanup_failures_are_only_logged_witness:
  "abs_path full_disk_world = Inr ''/r'' \<and> create_err full_disk_world = None \<and>
   fst (processDirectory Unix (newConfig no_trim example_flags) full_disk_world) = None \<and>
   records (snd (processDirectory Unix (newConfig no_trim example_flags) full_disk_world)) =
     [(LevelDebug, ''Processing directory'', [(''absolutePath'', AString ''/r'')]),
      (LevelInfo, ''Processing completed'', [(''filesProcessed'', AInt 0)]),
      (LevelError, ''Failed to flush writer'',
       [(''error'', AError (PathError ''no space left on device''))]),
      (LevelError, ''Failed to close output file'',
       [(''error'', AError (PathError ''input/output error''))])] \<and>
   fst (main Unix no_trim example_flags full_disk_world) = 0"
proof -
  let ?s = "\<lparr>out = \<lparr>flushed = [],
             buf = concat (header_lines ''/r'' (newConfig no_trim example_flags)),
             werr = None, room = Some 0\<rparr>,
     fileCount = 0,
     logged = [(LevelDebug, ''Processing directory'', [(''absolutePath'', AString ''/r'')])]
              @ [(LevelInfo, ''Processing completed'', [(''filesProcessed'', AInt 0)])]\<rparr>"
  have h1: "abs_path full_disk_world = Inr ''/r''" and h2: "create_err full_disk_world = None"
    by (simp_all add: full_disk_world_def failing_world_def)
  have h3: "walk_all Unix (newConfig no_trim example_flags) ''/r'' (root full_disk_world)
           \<lparr>out = NewWriter (out_room full_disk_world), fileCount = 0,
            logged = [(LevelDebug, ''Processing directory'', [(''absolutePath'', AString ''/r'')])]\<rparr>
         = (None, ?s)"
    using full_disk_world_walk
      [of "[(LevelDebug, ''Processing directory'', [(''absolutePath'', AString ''/r'')])]"]
    by (simp add: full_disk_world_def failing_world_def)
  have c: "out_close_err full_disk_world = Some ''input/output error''"
    by (simp add: full_disk_world_def failing_world_def)
  from cleanup_failures_are_only_logged [OF h1 h2 h3, of no_trim example_flags] h1 h2 c
  show ?thesis
    by (simp add: Flush_header_full_disk)
qed

text \<open>
  The root directory cannot be listed, and then the flush and the close fail too: the error
  returned is the one of the directory, and the two failures are log records.
\<close>

theorem cleanup_failure_counterexample:
  "fst (processDirectory Unix (newConfig no_trim example_flags) failing_world) =
     Some (PathError ''permission denied'') \<and>
   (LevelError, ''Failed to flush writer'',
     [(''error'', AError (PathError ''no space left on device''))])
     \<in> set (records (snd (processDirectory Unix (newConfig no_trim example_flags) failing_world))) \<and>
   (LevelError, ''Failed to close output file'',
     [(''error'', AError (PathError ''input/output error''))])
     \<in> set (records (snd (processDirectory Unix (newConfig no_trim example_flags) failing_world)))"
  by (simp add: processDirectory_def failing_world_def failing_world_walk deferred_def
      Flush_header_full_disk logger_def)

subsection \<open>C8: the count of files\<close>

text \<open>
  C8, as the code has it.  \<^verbatim>\<open>processDirectory\<close> returns an error or nothing; the count is
  not part of what it returns.  When it returns no error, it has logged the record
  \<^verbatim>\<open>Processing completed\<close> with the number of files it was to transcribe, all of them
  transcribed: the output file holds a prefix of the header and their sections, and all of it
  when the output file accepts every byte.
\<close>

theorem count_is_logged:
  assumes "processDirectory os config w = (None, res)"
    and "abs_path w = Inr absPath" and "root w = Inr tree"
  shows "completed (length (selected os config absPath tree)) \<in> set (records res) \<and>
         (\<exists>txt. written res = Some txt \<and>
            prefix txt (concat (header_lines absPath config)
                        @ sections os absPath (selected os config absPath tree))) \<and>
         (out_room w = None \<longrightarrow>
            written res = Some (concat (header_lines absPath config)
                                @ sections os absPath (selected os config absPath tree)))"
  using processDirectory_ok [OF assms]
  by (simp add: complete_output_def)

theorem count_is_logged_witness:
  "processDirectory Unix (newConfig no_trim example_flags) example_world =
     (None, snd (processDirectory Unix (newConfig no_trim example_flags) example_world)) \<and>
   abs_path example_world = Inr ''/r'' \<and> root example_world = Inr example_tree \<and>
   out_room example_world = None \<and>
   completed 2 \<in> set (records (snd (processDirectory Unix (newConfig no_trim example_flags)
                                      example_world))) \<and>
   written (snd (processDirectory Unix (newConfig no_trim example_flags) example_world)) =
     Some (concat (header_lines ''/r'' (newConfig no_trim example_flags))
           @ section_of ''a.go'' (plain_file two_lines)
           @ section_of ''sub/c.go'' (plain_file two_lines))"
proof -
  have h: "abs_path example_world = Inr ''/r''" "root example_world = Inr example_tree"
    "out_room example_world = None"
    by (simp_all add: example_world_def)
  from count_is_logged [OF example_world_run h(1,2)] h example_world_run show ?thesis
    by (simp add: example_selected sections_def example_relative numeral_2_eq_2)
qed

text \<open>
  Two runs that return the same, no error, and count differently: none of no files, two of
  four.
\<close>

theorem count_not_returned_counterexample:
  "fst (processDirectory Unix (newConfig no_trim example_flags) empty_world) = None \<and>
   fst (processDirectory Unix (newConfig no_trim example_flags) example_world) = None \<and>
   completed 0 \<in> set (records (snd (processDirectory Unix (newConfig no_trim example_flags)
                                      empty_world))) \<and>
   completed 2 \<in> set (records (snd (processDirectory Unix (newConfig no_trim example_flags)
                                      example_world)))"
proof -
  have e: "abs_path empty_world = Inr ''/r''" "root empty_world = Inr (Dir [])"
    by (simp_all add: empty_world_def example_world_def)
  have h: "abs_path example_world = Inr ''/r''" "root example_world = Inr example_tree"
    by (simp_all add: example_world_def)
  from processDirectory_ok(1) [OF empty_world_run e] processDirectory_ok(1) [OF example_world_run h]
    empty_world_run example_world_run
  show ?thesis
    by (simp add: example_selected empty_selected numeral_2_eq_2 prod_eq_iff)
qed

subsection \<open>C9: two runs on one tree\<close>

text \<open>
  C9.  The first run changes the tree when the output path leads into it, as with the default
  flags: it creates or truncates the output file there and fills it.  So the second run is
  taken on the world that the first run leaves.  Whenever a run returns, the next run with the
  same configuration and the same answers of the environment returns the same, leaves the same
  bytes in the output file, hands the same records to the logger, and leaves that world as it
  is; this holds wherever the output path leads.  A run whose output file holds only finitely
  many bytes returns.  A run whose output path leads out of the tree is the run of
  \<^verbatim>\<open>processDirectory\<close> on the tree as it is.  A run whose output path leads to a file of
  the tree that the extension filter leaves out is the run on the tree in which that file was
  created or truncated, and what it leaves in the output file is a part, from the start, of the
  header and the sections of the files of that tree that lie in no excluded directory and have
  an included extension.  A successful run whose whole output fits the buffer of the writer
  meets the output file while it is still empty: it is the run on the tree in which the output
  file was created or truncated.
\<close>

theorem two_runs_same_output:
  "(processDirectory_live os config w place = Some (result, res, w1) \<longrightarrow>
      processDirectory_live os config w1 place = Some (result, res, w1)) \<and>
   (out_room w \<noteq> None \<longrightarrow> processDirectory_live os config w place \<noteq> None) \<and>
   processDirectory_live os config w None =
     Some (fst (processDirectory os config w), snd (processDirectory os config w), w) \<and>
   (abs_path w = Inr absPath \<and> Create w (Some names) = Inr w2 \<and> root w2 = Inr tree2 \<and>
    \<not> shouldIncludeFile os (path_of os absPath names) (includeMap config) \<longrightarrow>
      processDirectory_live os config w (Some names) =
        Some (fst (processDirectory os config w2), snd (processDirectory os config w2),
              stored (Some names) (written (snd (processDirectory os config w2))) w2) \<and>
      (\<exists>txt. written (snd (processDirectory os config w2)) = Some txt \<and>
             prefix txt (complete_output os config absPath tree2))) \<and>
   (abs_path w = Inr absPath \<and> Create w place = Inr w2 \<and> root w2 = Inr tree2 \<and>
    processDirectory os config w2 = (None, res2) \<and>
    length (complete_output os config absPath tree2) \<le> defaultBufSize \<and>
    blank_at os (map_option (path_of os absPath) place) absPath tree2 \<longrightarrow>
      processDirectory_live os config w place =
        Some (None, res2, stored place (written res2) w2))"
proof (intro conjI impI)
  show "processDirectory_live os config w1 place = Some (result, res, w1)"
    if "processDirectory_live os config w place = Some (result, res, w1)"
    using that by (rule processDirectory_live_again)
  show "processDirectory_live os config w place \<noteq> None" if "out_room w \<noteq> None"
    using that processDirectory_live_returns [of w _ os config place] by auto
  show "processDirectory_live os config w None =
     Some (fst (processDirectory os config w), snd (processDirectory os config w), w)"
    by (rule processDirectory_live_outside)
  show "processDirectory_live os config w place = Some (None, res2, stored place (written res2) w2)"
    if "abs_path w = Inr absPath \<and> Create w place = Inr w2 \<and> root w2 = Inr tree2 \<and>
      processDirectory os config w2 = (None, res2) \<and>
      length (complete_output os config absPath tree2) \<le> defaultBufSize \<and>
      blank_at os (map_option (path_of os absPath) place) absPath tree2"
    using that processDirectory_live_small [of w absPath place w2 tree2 os config res2] by blast
next
  assume a: "abs_path w = Inr absPath \<and> Create w (Some names) = Inr w2 \<and> root w2 = Inr tree2 \<and>
    \<not> shouldIncludeFile os (path_of os absPath names) (includeMap config)"
  with processDirectory_live_plain [of w absPath "Some names" os config w2]
  show "processDirectory_live os config w (Some names) =
        Some (fst (processDirectory os config w2), snd (processDirectory os config w2),
              stored (Some names) (written (snd (processDirectory os config w2))) w2)"
    by auto
  from a have w2: "abs_path w2 = Inr absPath" "create_err w2 = None"
    using Create_answers [of w "Some names" w2] by simp_all
  from processDirectory_written [OF this]
  obtain str where t: "written (snd (processDirectory os config w2)) = Some str"
    by auto
  from processDirectory_partly [OF w2(1) _ t] a t
  show "\<exists>txt. written (snd (processDirectory os config w2)) = Some txt \<and>
             prefix txt (complete_output os config absPath tree2)"
    by simp
qed

theorem two_runs_same_output_witness:
  "abs_path single_world = Inr ''/r'' \<and>
   Create single_world context_place = Inr listed_world \<and>
   root listed_world = Inr listed_tree \<and>
   processDirectory Unix (newConfig no_trim default_flags) listed_world =
     (None, snd (processDirectory Unix (newConfig no_trim default_flags) listed_world)) \<and>
   length (complete_output Unix (newConfig no_trim default_flags) ''/r'' listed_tree)
     \<le> defaultBufSize \<and>
   blank_at Unix (map_option (path_of Unix ''/r'') context_place) ''/r'' listed_tree \<and>
   written (snd (processDirectory Unix (newConfig no_trim default_flags) listed_world)) =
     Some listed_text \<and>
   processDirectory_live Unix (newConfig no_trim default_flags) single_world context_place =
     Some (None, snd (processDirectory Unix (newConfig no_trim default_flags) listed_world),
           stored context_place (Some listed_text) listed_world) \<and>
   processDirectory_live Unix (newConfig no_trim default_flags)
       (stored context_place (Some listed_text) listed_world) context_place =
     Some (None, snd (processDirectory Unix (newConfig no_trim default_flags) listed_world),
           stored context_place (Some listed_text) listed_world) \<and>
   root (stored context_place (Some listed_text) listed_world) =
     Inr (Dir [(''a.go'', File (plain_file two_lines)),
               (''context.txt'', File (new_file\<lparr>bytes := listed_text\<rparr>))]) \<and>
   root single_world = Inr (Dir [(''a.go'', File (plain_file two_lines))]) \<and>
   out_room small_world \<noteq> None \<and>
   processDirectory_live Unix (newConfig no_trim default_flags) small_world context_place \<noteq> None \<and>
   processDirectory_live Unix (newConfig no_trim default_flags)
     (snd (snd (the (processDirectory_live Unix (newConfig no_trim default_flags) small_world
                       context_place))))
     context_place =
   processDirectory_live Unix (newConfig no_trim default_flags) small_world context_place \<and>
   abs_path example_world = Inr ''/r'' \<and>
   Create example_world (Some [''context.txt'']) = Inr created_world \<and>
   root created_world = Inr created_tree \<and>
   \<not> shouldIncludeFile Unix (path_of Unix ''/r'' [''context.txt''])
       (includeMap (newConfig no_trim example_flags)) \<and>
   processDirectory_live Unix (newConfig no_trim example_flags) example_world
       (Some [''context.txt'']) =
     Some (None, snd (processDirectory Unix (newConfig no_trim example_flags) created_world),
           stored (Some [''context.txt''])
             (Some (complete_output Unix (newConfig no_trim example_flags) ''/r'' example_tree))
             created_world) \<and>
   written (snd (processDirectory Unix (newConfig no_trim example_flags) created_world)) =
     Some (concat (header_lines ''/r'' (newConfig no_trim example_flags))
           @ section_of ''a.go'' (plain_file two_lines)
           @ section_of ''sub/c.go'' (plain_file two_lines)) \<and>
   processDirectory_live Unix (newConfig no_trim example_flags)
       (stored (Some [''context.txt''])
          (Some (complete_output Unix (newConfig no_trim example_flags) ''/r'' example_tree))
          created_world)
       (Some [''context.txt'']) =
     Some (None, snd (processDirectory Unix (newConfig no_trim example_flags) created_world),
           stored (Some [''context.txt''])
             (Some (complete_output Unix (newConfig no_trim example_flags) ''/r'' example_tree))
             created_world)"
proof -
  let ?d = "newConfig no_trim default_flags" and ?c = "newConfig no_trim example_flags"
  let ?text = "complete_output Unix ?c ''/r'' example_tree"
  let ?after = "stored (Some [''context.txt'']) (Some ?text) created_world"
  let ?res = "snd (processDirectory Unix ?c created_world)"
  let ?lres = "snd (processDirectory Unix ?d listed_world)"
  let ?lafter = "stored context_place (Some listed_text) listed_world"
  have k: "abs_path single_world = Inr ''/r''"
    "Create single_world context_place = Inr listed_world"
    "root listed_world = Inr listed_tree"
    "processDirectory Unix ?d listed_world = (None, ?lres)"
    "length (complete_output Unix ?d ''/r'' listed_tree) \<le> defaultBufSize"
    "blank_at Unix (map_option (path_of Unix ''/r'') context_place) ''/r'' listed_tree"
    using listed_created listed_world_run listed_text_fits listed_blank
    by (simp_all only: listed_output context_place_def context_path option.map)
      (simp_all add: single_world_def listed_world_def example_world_def)
  then have "abs_path single_world = Inr ''/r'' \<and>
    Create single_world context_place = Inr listed_world \<and>
    root listed_world = Inr listed_tree \<and>
    processDirectory Unix ?d listed_world = (None, ?lres) \<and>
    length (complete_output Unix ?d ''/r'' listed_tree) \<le> defaultBufSize \<and>
    blank_at Unix (map_option (path_of Unix ''/r'') context_place) ''/r'' listed_tree"
    by blast
  with two_runs_same_output [where os = Unix and config = "?d" and w = single_world
      and place = context_place and absPath = "''/r''" and ?w2.0 = listed_world
      and ?tree2.0 = listed_tree and ?res2.0 = "?lres",
      THEN conjunct2, THEN conjunct2, THEN conjunct2, THEN conjunct2]
  have "processDirectory_live Unix ?d single_world context_place =
        Some (None, ?lres, stored context_place (written ?lres) listed_world)"
    by blast
  then have l: "processDirectory_live Unix ?d single_world context_place =
     Some (None, ?lres, ?lafter)"
    by (simp only: listed_world_written)
  from two_runs_same_output [of Unix ?d single_world context_place None ?lres ?lafter,
      THEN conjunct1] l
  have m: "processDirectory_live Unix ?d ?lafter context_place = Some (None, ?lres, ?lafter)"
    by (rule mp)
  have n: "root ?lafter = Inr (Dir [(''a.go'', File (plain_file two_lines)),
               (''context.txt'', File (new_file\<lparr>bytes := listed_text\<rparr>))])"
    "root single_world = Inr (Dir [(''a.go'', File (plain_file two_lines))])"
    by (simp_all add: stored_def context_place_def listed_world_def listed_tree_def
        single_world_def example_world_def)
  have r: "out_room small_world \<noteq> None"
    by (simp add: small_world_def)
  from two_runs_same_output [of Unix ?d small_world context_place, THEN conjunct2, THEN conjunct1] r
  have a: "processDirectory_live Unix ?d small_world context_place \<noteq> None"
    by (rule mp)
  then obtain result res w1 where
    b: "processDirectory_live Unix ?d small_world context_place = Some (result, res, w1)"
    by (cases "processDirectory_live Unix ?d small_world context_place") auto
  from two_runs_same_output [of Unix ?d small_world context_place result res w1, THEN conjunct1] b
  have "processDirectory_live Unix ?d w1 context_place = Some (result, res, w1)"
    by (rule mp)
  with b have c: "processDirectory_live Unix ?d
     (snd (snd (the (processDirectory_live Unix ?d small_world context_place)))) context_place =
     processDirectory_live Unix ?d small_world context_place"
    by simp
  have h: "abs_path example_world = Inr ''/r''"
    "Create example_world (Some [''context.txt'']) = Inr created_world"
    "root created_world = Inr created_tree"
    "\<not> shouldIncludeFile Unix (path_of Unix ''/r'' [''context.txt'']) (includeMap ?c)"
    using context_created context_not_included
    by (simp_all only: context_path context_place_def)
      (simp_all add: example_world_def created_world_def)
  from h have "abs_path example_world = Inr ''/r'' \<and>
    Create example_world (Some [''context.txt'']) = Inr created_world \<and>
    root created_world = Inr created_tree \<and>
    \<not> shouldIncludeFile Unix (path_of Unix ''/r'' [''context.txt'']) (includeMap ?c)"
    by blast
  with two_runs_same_output [where os = Unix and config = "?c" and w = example_world
      and absPath = "''/r''" and names = "[''context.txt'']" and ?w2.0 = created_world
      and ?tree2.0 = created_tree, THEN conjunct2, THEN conjunct2, THEN conjunct2, THEN conjunct1]
  have "processDirectory_live Unix ?c example_world (Some [''context.txt'']) =
        Some (fst (processDirectory Unix ?c created_world), ?res,
              stored (Some [''context.txt'']) (written ?res) created_world)"
    by blast
  moreover have "fst (processDirectory Unix ?c created_world) = None"
    using created_world_run by (simp only: prod_eq_iff fst_conv)
  ultimately have e: "processDirectory_live Unix ?c example_world (Some [''context.txt'']) =
     Some (None, ?res, ?after)"
    by (simp only: created_world_written)
  from two_runs_same_output [of Unix ?c example_world "Some [''context.txt'']" None ?res ?after,
      THEN conjunct1] e
  have f: "processDirectory_live Unix ?c ?after (Some [''context.txt'']) = Some (None, ?res, ?after)"
    by (rule mp)
  have w: "written ?res = Some (concat (header_lines ''/r'' ?c)
           @ section_of ''a.go'' (plain_file two_lines)
           @ section_of ''sub/c.go'' (plain_file two_lines))"
    by (simp only: created_world_written example_output)
  from k l m n r a c h e f w listed_world_written show ?thesis
    by blast
qed

subsection \<open>C10: files named by their extension\<close>

text \<open>
  C10.  A file whose name is a dot followed by bytes without a further dot has its whole name
  as extension; with a non-empty inclusion map it is included exactly when that name, with
  its dot, is indexed true (is an item, for a map built by \<^verbatim>\<open>createLookupMap\<close>).
\<close>

theorem dotfile_extension:
  assumes "\<not> Mapping.is_empty inclusions"
    and "\<forall>c \<in> set rest. \<not> IsPathSeparator os c \<and> c \<noteq> dot"
    and "dir = [] \<or> IsPathSeparator os (last dir)"
  shows "Ext os (dir @ dot # rest) = dot # rest \<and>
         shouldIncludeFile os (dir @ dot # rest) inclusions = index inclusions (dot # rest) \<and>
         shouldIncludeFile os (dir @ dot # rest) (createLookupMap (item # items)) =
           (dot # rest \<in> set (item # items))"
  using assms
  by (simp add: Ext_suffix shouldIncludeFile_def is_empty_createLookupMap index_createLookupMap)

theorem dotfile_extension_witness:
  "\<not> Mapping.is_empty (createLookupMap [''.gitignore'']) \<and>
   list_all (\<lambda>c. \<not> IsPathSeparator Unix c \<and> c \<noteq> dot) ''gitignore'' \<and>
   IsPathSeparator Unix (last ''/r/'') \<and>
   Ext Unix ''/r/.gitignore'' = ''.gitignore'' \<and>
   shouldIncludeFile Unix ''/r/.gitignore'' (createLookupMap [''.gitignore'']) \<and>
   \<not> shouldIncludeFile Unix ''/r/.gitignore'' (createLookupMap [''.go'', ''gitignore''])"
  using dotfile_extension [of "createLookupMap [''.gitignore'']" "''gitignore''" Unix "''/r/''"
      "''.gitignore''" "[]"]
    dotfile_extension [of "createLookupMap [''.gitignore'']" "''gitignore''" Unix "''/r/''"
      "''.go''" "[''gitignore'']"]
  by (simp add: is_empty_createLookupMap index_createLookupMap dot_def slash_def)

end
